theory Spec2Isabelle
  imports Complex_Main "HOL-Library.Word" "HOL-Library.Monad_Syntax" "HOL-Library.Sublist"
begin

section \<open>PIT (Phono in Terminal): the image pipeline of \<^verbatim>\<open>pit.c\<close>\<close>

text \<open>
  The development follows \<^verbatim>\<open>src/pit.c\<close>. An \<^verbatim>\<open>unsigned char\<close> is an \<open>8 word\<close>;
  a C \<^verbatim>\<open>int\<close> is a HOL \<open>int\<close> that must stay inside the 32-bit range, signed overflow
  being undefined behaviour in C and an error branch here; a pixel buffer is a list of
  bytes, and every read or write outside it is an error branch too.
\<close>

type_synonym byte = "8 word"

subsection \<open>Colour quantisation: \<^verbatim>\<open>rgb_to_256\<close> and \<^verbatim>\<open>rgb_to_16\<close>\<close>

text \<open>
  The arguments are promoted to \<^verbatim>\<open>int\<close> before any arithmetic, so nothing wraps:
  \<open>uint\<close> reads the byte. The macro \<^verbatim>\<open>min(a, b)\<close> is \<^verbatim>\<open>a < b ? a : b\<close>.
\<close>

definition rgb_to_256 :: "byte \<Rightarrow> byte \<Rightarrow> byte \<Rightarrow> int" where
  "rgb_to_256 r g b =
     (if r = g \<and> g = b then
        (if uint r < 3 then 16
         else if uint r > 252 then 231
         else 232 + (uint r - 3) div 10)
      else
        (let ri = (if 5 < (uint r * 6) div 256 then 5 else (uint r * 6) div 256);
             gi = (if 5 < (uint g * 6) div 256 then 5 else (uint g * 6) div 256);
             bi = (if 5 < (uint b * 6) div 256 then 5 else (uint b * 6) div 256)
         in 16 + (ri * 36) + (gi * 6) + bi))"

definition rgb_to_16 :: "byte \<Rightarrow> byte \<Rightarrow> byte \<Rightarrow> int" where
  "rgb_to_16 r g b =
     (let intensity = (if uint r > 128 \<or> uint g > 128 \<or> uint b > 128 then 8 else 0);
          r_bit = (if uint r > 128 then 4 else 0);
          g_bit = (if uint g > 128 then 2 else 0);
          b_bit = (if uint b > 128 then 1 else (0::int))
      in intensity + r_bit + g_bit + b_bit)"

subsection \<open>C integers, buffers and loops\<close>

text \<open>
  What a function of \<^verbatim>\<open>pit.c\<close> can end with besides its result: the three failures it
  reports by returning \<^verbatim>\<open>NULL\<close> (told apart by the message it logs), and undefined
  behaviour (signed overflow, an access outside a buffer).
\<close>

datatype error = InvalidInput | SizeOverflow | AllocationError | UndefinedBehaviour

definition INT_MAX :: int where
  "INT_MAX = 2147483647"

definition INT_MIN :: int where
  "INT_MIN = - 2147483648"

definition in_int_range :: "int \<Rightarrow> bool" where
  "in_int_range v \<longleftrightarrow> INT_MIN \<le> v \<and> v \<le> INT_MAX"

definition ck_int :: "int \<Rightarrow> int option" where
  "ck_int v = (if in_int_range v then Some v else None)"

definition add_int :: "int \<Rightarrow> int \<Rightarrow> int option" where
  "add_int a b = ck_int (a + b)"

definition sub_int :: "int \<Rightarrow> int \<Rightarrow> int option" where
  "sub_int a b = ck_int (a - b)"

definition mul_int :: "int \<Rightarrow> int \<Rightarrow> int option" where
  "mul_int a b = ck_int (a * b)"

text \<open>
  \<^verbatim>\<open>size_t\<close> arithmetic wraps modulo \<open>SIZE_MAX + 1\<close>. \<^verbatim>\<open>SIZE_MAX\<close> comes from
  \<^verbatim>\<open><stdint.h>\<close>, not from \<^verbatim>\<open>pit.c\<close>: it is the parameter \<open>smax\<close> of every function that
  computes a size.
\<close>

definition to_size :: "nat \<Rightarrow> int \<Rightarrow> nat" where
  "to_size smax i = nat (i mod (int smax + 1))"

definition size_mul :: "nat \<Rightarrow> nat \<Rightarrow> nat \<Rightarrow> nat" where
  "size_mul smax a b = (a * b) mod (smax + 1)"

definition size_add :: "nat \<Rightarrow> nat \<Rightarrow> nat \<Rightarrow> nat" where
  "size_add smax a b = (a + b) mod (smax + 1)"

text \<open>
  \<^verbatim>\<open>malloc\<close>: the allocator \<open>heap\<close> answers a request of \<open>n\<close> bytes with \<open>None\<close>
  (\<^verbatim>\<open>NULL\<close>) or with the indeterminate initial contents of the block, of which the first
  \<open>n\<close> bytes are the block.
\<close>

type_synonym heap = "nat \<Rightarrow> (nat \<Rightarrow> byte) option"

definition malloc :: "heap \<Rightarrow> nat \<Rightarrow> byte list option" where
  "malloc heap n = (case heap n of None \<Rightarrow> None | Some junk \<Rightarrow> Some (map junk [0..<n]))"

definition load :: "byte list \<Rightarrow> int \<Rightarrow> byte option" where
  "load buf i = (if 0 \<le> i \<and> i < int (length buf) then Some (buf ! nat i) else None)"

definition store :: "byte list \<Rightarrow> int \<Rightarrow> byte \<Rightarrow> byte list option" where
  "store buf i v = (if 0 \<le> i \<and> i < int (length buf) then Some (buf[nat i := v]) else None)"

text \<open>
  \<^verbatim>\<open>for (int i = 0; i < n; i++) body\<close>: the body runs for \<open>i = 0, \<dots>, n - 1\<close> on the
  state, and the loop stops at the first undefined step.
\<close>

primrec iterate :: "int list \<Rightarrow> (int \<Rightarrow> 's \<Rightarrow> 's option) \<Rightarrow> 's \<Rightarrow> 's option" where
  "iterate [] body s = Some s"
| "iterate (i # js) body s = (case body i s of None \<Rightarrow> None | Some s' \<Rightarrow> iterate js body s')"

definition for_upto :: "int \<Rightarrow> (int \<Rightarrow> 's \<Rightarrow> 's option) \<Rightarrow> 's \<Rightarrow> 's option" where
  "for_upto n body s = iterate (map int [0..<nat n]) body s"

text \<open>The index expression \<^verbatim>\<open>(row * w + col) * c + channel\<close>, computed in \<^verbatim>\<open>int\<close>.\<close>

definition sample_index :: "int \<Rightarrow> int \<Rightarrow> int \<Rightarrow> int \<Rightarrow> int \<Rightarrow> int option" where
  "sample_index row w col c channel =
     do { a \<leftarrow> mul_int row w; b \<leftarrow> add_int a col; d \<leftarrow> mul_int b c; add_int d channel }"

subsection \<open>Geometry: flips and rotations\<close>

text \<open>A possibly null \<^verbatim>\<open>unsigned char *\<close> is a \<open>byte list option\<close>.\<close>

definition flip_image_horizontal ::
  "nat \<Rightarrow> heap \<Rightarrow> byte list option \<Rightarrow> int \<Rightarrow> int \<Rightarrow> int \<Rightarrow> error + byte list" where
  "flip_image_horizontal smax heap img_data w h c =
     (case img_data of
        None \<Rightarrow> Inl InvalidInput
      | Some img \<Rightarrow>
          (case malloc heap (size_mul smax (size_mul smax (to_size smax w) (to_size smax h))
                               (to_size smax c)) of
             None \<Rightarrow> Inl AllocationError
           | Some flipped_data \<Rightarrow>
               (case for_upto h (\<lambda>y. for_upto w (\<lambda>x. for_upto c (\<lambda>channel out.
                        do { w1 \<leftarrow> sub_int w 1;
                             sx \<leftarrow> sub_int w1 x;
                             src \<leftarrow> sample_index y w sx c channel;
                             v \<leftarrow> load img src;
                             dst \<leftarrow> sample_index y w x c channel;
                             store out dst v }))) flipped_data of
                  None \<Rightarrow> Inl UndefinedBehaviour
                | Some out \<Rightarrow> Inr out)))"

definition flip_image_vertical ::
  "nat \<Rightarrow> heap \<Rightarrow> byte list option \<Rightarrow> int \<Rightarrow> int \<Rightarrow> int \<Rightarrow> error + byte list" where
  "flip_image_vertical smax heap img_data w h c =
     (case img_data of
        None \<Rightarrow> Inl InvalidInput
      | Some img \<Rightarrow>
          (case malloc heap (size_mul smax (size_mul smax (to_size smax w) (to_size smax h))
                               (to_size smax c)) of
             None \<Rightarrow> Inl AllocationError
           | Some flipped_data \<Rightarrow>
               (case for_upto h (\<lambda>y. for_upto w (\<lambda>x. for_upto c (\<lambda>channel out.
                        do { h1 \<leftarrow> sub_int h 1;
                             sy \<leftarrow> sub_int h1 y;
                             src \<leftarrow> sample_index sy w x c channel;
                             v \<leftarrow> load img src;
                             dst \<leftarrow> sample_index y w x c channel;
                             store out dst v }))) flipped_data of
                  None \<Rightarrow> Inl UndefinedBehaviour
                | Some out \<Rightarrow> Inr out)))"

text \<open>
  \<^verbatim>\<open>rotate_image_90_cw\<close> takes the width and the height by pointer and swaps them on
  success: the model returns the new buffer with the new width and height.
\<close>

definition rotate_image_90_cw ::
  "nat \<Rightarrow> heap \<Rightarrow> byte list option \<Rightarrow> int \<Rightarrow> int \<Rightarrow> int \<Rightarrow> error + (byte list \<times> int \<times> int)" where
  "rotate_image_90_cw smax heap img_data w h c =
     (case img_data of
        None \<Rightarrow> Inl InvalidInput
      | Some img \<Rightarrow>
          (let original_w = w; original_h = h;
               new_w = original_h; new_h = original_w
           in case malloc heap (size_mul smax (size_mul smax (to_size smax new_w)
                                    (to_size smax new_h)) (to_size smax c)) of
                None \<Rightarrow> Inl AllocationError
              | Some rotated_data \<Rightarrow>
                  (case for_upto new_h (\<lambda>y. for_upto new_w (\<lambda>x out0.
                           do { w1 \<leftarrow> sub_int original_w 1;
                                oy \<leftarrow> sub_int w1 x;
                                for_upto c (\<lambda>channel out.
                                  do { src \<leftarrow> sample_index oy original_w y c channel;
                                       v \<leftarrow> load img src;
                                       dst \<leftarrow> sample_index y new_w x c channel;
                                       store out dst v }) out0 })) rotated_data of
                     None \<Rightarrow> Inl UndefinedBehaviour
                   | Some out \<Rightarrow> Inr (out, new_w, new_h))))"

definition rotate_image_180 ::
  "nat \<Rightarrow> heap \<Rightarrow> byte list option \<Rightarrow> int \<Rightarrow> int \<Rightarrow> int \<Rightarrow> error + byte list" where
  "rotate_image_180 smax heap img_data w h c =
     (case img_data of
        None \<Rightarrow> Inl InvalidInput
      | Some img \<Rightarrow>
          (case malloc heap (size_mul smax (size_mul smax (to_size smax w) (to_size smax h))
                               (to_size smax c)) of
             None \<Rightarrow> Inl AllocationError
           | Some rotated_data \<Rightarrow>
               (case for_upto h (\<lambda>y. for_upto w (\<lambda>x. for_upto c (\<lambda>channel out.
                        do { h1 \<leftarrow> sub_int h 1;
                             sy \<leftarrow> sub_int h1 y;
                             w1 \<leftarrow> sub_int w 1;
                             sx \<leftarrow> sub_int w1 x;
                             src \<leftarrow> sample_index sy w sx c channel;
                             v \<leftarrow> load img src;
                             dst \<leftarrow> sample_index y w x c channel;
                             store out dst v }))) rotated_data of
                  None \<Rightarrow> Inl UndefinedBehaviour
                | Some out \<Rightarrow> Inr out)))"

text \<open>
  Where a flip sends the sample at linear index \<open>k\<close>: to the sample of the same row and
  channel in the mirrored column (horizontal), of the same column and channel in the
  mirrored row (vertical).
\<close>

definition hflip_index :: "int \<Rightarrow> int \<Rightarrow> int \<Rightarrow> int" where
  "hflip_index w c k = ((k div c div w) * w + (w - 1 - (k div c) mod w)) * c + k mod c"

definition vflip_index :: "int \<Rightarrow> int \<Rightarrow> int \<Rightarrow> int \<Rightarrow> int" where
  "vflip_index w h c k = ((h - 1 - k div c div w) * w + (k div c) mod w) * c + k mod c"

subsection \<open>Single-precision arithmetic\<close>

text \<open>
  A \<^verbatim>\<open>float\<close> is an IEEE 754 binary32 number, modelled by the real number it denotes.
  Every arithmetic operation computes the exact result and rounds it to the nearest
  binary32 value, ties to the even significand (\<open>fl32\<close>): each operation of the
  source is rounded to \<^verbatim>\<open>float\<close> on its own. The quantum \<open>ulp32 x\<close> of a value is the
  power of two \<open>q\<close>, at least \<open>2\<^sup>-\<^sup>1\<^sup>4\<^sup>9\<close>, with \<open>\<bar>x\<bar> < q * 2\<^sup>2\<^sup>4\<close>, so that the
  significand \<open>x / q\<close> has 24 bits; it is found by doubling or halving from 1. The
  exponent is not bounded above in the model: a value beyond \<^verbatim>\<open>FLT_MAX\<close> arises in
  \<^verbatim>\<open>pit.c\<close> only as the operand of a conversion to \<^verbatim>\<open>int\<close>, which it overflows either way.

  Converting a \<^verbatim>\<open>float\<close> to an integer type discards the fraction (\<open>trunc\<close>); when the
  integral part does not fit the type the behaviour is undefined (C11 6.3.1.4).
\<close>

definition trunc :: "real \<Rightarrow> int" where
  "trunc x = (if 0 \<le> x then \<lfloor>x\<rfloor> else \<lceil>x\<rceil>)"

definition round_half_even :: "real \<Rightarrow> int" where
  "round_half_even y =
     (if y - of_int \<lfloor>y\<rfloor> < 1 / 2 then \<lfloor>y\<rfloor>
      else if 1 / 2 < y - of_int \<lfloor>y\<rfloor> then \<lfloor>y\<rfloor> + 1
      else if even \<lfloor>y\<rfloor> then \<lfloor>y\<rfloor> else \<lfloor>y\<rfloor> + 1)"

fun ulp_up :: "nat \<Rightarrow> real \<Rightarrow> real \<Rightarrow> real" where
  "ulp_up 0 q x = q"
| "ulp_up (Suc n) q x = (if \<bar>x\<bar> < q * 16777216 then q else ulp_up n (2 * q) x)"

fun ulp_down :: "nat \<Rightarrow> real \<Rightarrow> real \<Rightarrow> real" where
  "ulp_down 0 q x = q"
| "ulp_down (Suc n) q x = (if q * 8388608 \<le> \<bar>x\<bar> then q else ulp_down n (q / 2) x)"

definition ulp32 :: "real \<Rightarrow> real" where
  "ulp32 x = (if 16777216 \<le> \<bar>x\<bar> then ulp_up 200 2 x else ulp_down 149 1 x)"

definition fl32 :: "real \<Rightarrow> real" where
  "fl32 x = ulp32 x * of_int (round_half_even (x / ulp32 x))"


definition f_of_int :: "int \<Rightarrow> real" where
  "f_of_int n = fl32 (of_int n)"

definition fadd :: "real \<Rightarrow> real \<Rightarrow> real" where
  "fadd a b = fl32 (a + b)"

definition fsub :: "real \<Rightarrow> real \<Rightarrow> real" where
  "fsub a b = fl32 (a - b)"

definition fmul :: "real \<Rightarrow> real \<Rightarrow> real" where
  "fmul a b = fl32 (a * b)"

definition fdiv :: "real \<Rightarrow> real \<Rightarrow> real" where
  "fdiv a b = fl32 (a / b)"

definition f_to_int :: "real \<Rightarrow> int option" where
  "f_to_int x = ck_int (trunc x)"

definition f_to_uchar :: "real \<Rightarrow> byte option" where
  "f_to_uchar x = (if 0 \<le> trunc x \<and> trunc x \<le> 255 then Some (word_of_int (trunc x)) else None)"

text \<open>\<^verbatim>\<open>#define TERMINAL_CHAR_HEIGHT_TO_WIDTH_RATIO 1.5f\<close>\<close>

definition TERMINAL_CHAR_HEIGHT_TO_WIDTH_RATIO :: real where
  "TERMINAL_CHAR_HEIGHT_TO_WIDTH_RATIO = 3 / 2"

subsection \<open>Resampling: \<^verbatim>\<open>resize_image_bilinear\<close>\<close>

definition UINT64_MAX :: nat where
  "UINT64_MAX = 18446744073709551615"

text \<open>\<^verbatim>\<open>v < 0 ? 0 : (v >= n ? n - 1 : v)\<close>\<close>

definition clamp_coord :: "int \<Rightarrow> int \<Rightarrow> int option" where
  "clamp_coord v n = (if v < 0 then Some 0 else if v \<ge> n then sub_int n 1 else Some v)"

text \<open>
  The body of the innermost loop, one channel of one destination pixel, from the clamped
  neighbour coordinates and the weights; and the body of the two outer loops.
\<close>

definition resize_sample ::
  "byte list \<Rightarrow> int \<Rightarrow> int \<Rightarrow> int \<Rightarrow> int \<Rightarrow> int \<Rightarrow> int \<Rightarrow> int \<Rightarrow> real \<Rightarrow> real \<Rightarrow> int \<Rightarrow> int \<Rightarrow>
     int \<Rightarrow> byte list \<Rightarrow> byte list option" where
  "resize_sample img orig_w orig_channels new_w x1 y1 x2 y2 dx dy x y c resized =
     do { idx11 \<leftarrow> sample_index y1 orig_w x1 orig_channels c;
          idx21 \<leftarrow> sample_index y1 orig_w x2 orig_channels c;
          idx12 \<leftarrow> sample_index y2 orig_w x1 orig_channels c;
          idx22 \<leftarrow> sample_index y2 orig_w x2 orig_channels c;
          p11 \<leftarrow> load img idx11;
          p21 \<leftarrow> load img idx21;
          p12 \<leftarrow> load img idx12;
          p22 \<leftarrow> load img idx22;
          let val_x1 = fadd (fmul (f_of_int (uint p11)) (fsub 1 dx)) (fmul (f_of_int (uint p21)) dx);
              val_x2 = fadd (fmul (f_of_int (uint p12)) (fsub 1 dx)) (fmul (f_of_int (uint p22)) dx);
              final_val = fadd (fmul val_x1 (fsub 1 dy)) (fmul val_x2 dy)
          in
          do { dst \<leftarrow> sample_index y new_w x orig_channels c;
               v \<leftarrow> f_to_uchar (fadd final_val (1 / 2));
               store resized dst v } }"

definition resize_pixel ::
  "byte list \<Rightarrow> int \<Rightarrow> int \<Rightarrow> int \<Rightarrow> int \<Rightarrow> int \<Rightarrow> real \<Rightarrow> real \<Rightarrow> int \<Rightarrow> int \<Rightarrow> int \<Rightarrow>
     byte list \<Rightarrow> byte list option" where
  "resize_pixel img orig_w orig_h orig_channels src_x src_y x_scale y_scale new_w x y resized =
     (let ox = fadd (f_of_int src_x) (fmul (f_of_int x) x_scale);
          oy = fadd (f_of_int src_y) (fmul (f_of_int y) y_scale)
      in
      do { x1 \<leftarrow> f_to_int ox;
           y1 \<leftarrow> f_to_int oy;
           x2 \<leftarrow> add_int x1 1;
           y2 \<leftarrow> add_int y1 1;
           let dx = fsub ox (f_of_int x1);
               dy = fsub oy (f_of_int y1)
           in
           do { x1c \<leftarrow> clamp_coord x1 orig_w;
                y1c \<leftarrow> clamp_coord y1 orig_h;
                x2c \<leftarrow> clamp_coord x2 orig_w;
                y2c \<leftarrow> clamp_coord y2 orig_h;
                for_upto orig_channels
                  (resize_sample img orig_w orig_channels new_w x1c y1c x2c y2c dx dy x y)
                  resized } })"

definition resize_image_bilinear ::
  "nat \<Rightarrow> heap \<Rightarrow> byte list option \<Rightarrow> int \<Rightarrow> int \<Rightarrow> int \<Rightarrow> int \<Rightarrow> int \<Rightarrow> int \<Rightarrow> int \<Rightarrow>
     int \<Rightarrow> int \<Rightarrow> error + byte list" where
  "resize_image_bilinear smax heap img_data orig_w orig_h orig_channels src_x src_y src_w src_h
       new_w new_h =
     (case img_data of
        None \<Rightarrow> Inl InvalidInput
      | Some img \<Rightarrow>
          if new_w \<le> 0 \<or> new_h \<le> 0 \<or> src_w \<le> 0 \<or> src_h \<le> 0 then Inl InvalidInput
          else
            let data_size_64 =
                  size_mul UINT64_MAX
                    (size_mul UINT64_MAX (to_size UINT64_MAX new_w) (to_size UINT64_MAX new_h))
                    (to_size UINT64_MAX orig_channels)
            in
            if data_size_64 > smax then Inl SizeOverflow
            else
              case malloc heap (data_size_64 mod (smax + 1)) of
                None \<Rightarrow> Inl AllocationError
              | Some resized \<Rightarrow>
                  (let x_scale = fdiv (f_of_int src_w) (f_of_int new_w);
                       y_scale = fdiv (f_of_int src_h) (f_of_int new_h)
                   in
                   case for_upto new_h (\<lambda>y. for_upto new_w (\<lambda>x.
                          resize_pixel img orig_w orig_h orig_channels src_x src_y
                            x_scale y_scale new_w x y)) resized of
                     None \<Rightarrow> Inl UndefinedBehaviour
                   | Some out \<Rightarrow> Inr out))"

subsection \<open>Display size: \<^verbatim>\<open>calculate_display_dimensions\<close>\<close>

text \<open>
  The terminal size that \<^verbatim>\<open>get_terminal_size\<close> reports (a positive pair, from the
  operating system) is the pair of parameters \<open>terminal_width\<close>, \<open>terminal_height\<close>.
  The result is the pair written to \<^verbatim>\<open>*display_width\<close> and \<^verbatim>\<open>*display_height\<close>.
\<close>

definition calculate_display_dimensions ::
  "int \<Rightarrow> int \<Rightarrow> int \<Rightarrow> int \<Rightarrow> real \<Rightarrow> (int \<times> int) option" where
  "calculate_display_dimensions terminal_width terminal_height img_orig_width img_orig_height
       zoom_factor =
     do { t \<leftarrow> sub_int terminal_height 2;
          let usable_terminal_height = (if t \<le> 0 then 1 else t) in
          if img_orig_width \<le> 0 \<or> img_orig_height \<le> 0
          then Some (terminal_width, usable_terminal_height)
          else
            let image_pixel_aspect_ratio = fdiv (f_of_int img_orig_width) (f_of_int img_orig_height);
                effective_terminal_pixel_aspect_ratio =
                  fdiv (f_of_int terminal_width)
                    (fmul (f_of_int usable_terminal_height) TERMINAL_CHAR_HEIGHT_TO_WIDTH_RATIO)
            in
            do { (w0, h0) \<leftarrow>
                   (if image_pixel_aspect_ratio > effective_terminal_pixel_aspect_ratio
                    then do { w \<leftarrow> f_to_int (fmul (f_of_int terminal_width) zoom_factor);
                              h \<leftarrow> f_to_int (fdiv (fdiv (f_of_int w) image_pixel_aspect_ratio)
                                     TERMINAL_CHAR_HEIGHT_TO_WIDTH_RATIO);
                              Some (w, h) }
                    else do { h \<leftarrow> f_to_int (fmul (f_of_int usable_terminal_height) zoom_factor);
                              w \<leftarrow> f_to_int (fmul (fmul (f_of_int h)
                                     TERMINAL_CHAR_HEIGHT_TO_WIDTH_RATIO) image_pixel_aspect_ratio);
                              Some (w, h) });
                 let w1 = (if w0 \<le> 0 then 1 else w0);
                     h1 = (if h0 \<le> 0 then 1 else h0) in
                 do { (w2, h2) \<leftarrow>
                        (if w1 > terminal_width
                         then do { h \<leftarrow> f_to_int (fdiv (fdiv (f_of_int terminal_width)
                                          image_pixel_aspect_ratio)
                                          TERMINAL_CHAR_HEIGHT_TO_WIDTH_RATIO);
                                   Some (terminal_width, if h \<le> 0 then 1 else h) }
                         else Some (w1, h1));
                      (w3, h3) \<leftarrow>
                        (if h2 > usable_terminal_height
                         then do { w \<leftarrow> f_to_int (fmul (fmul (f_of_int usable_terminal_height)
                                          TERMINAL_CHAR_HEIGHT_TO_WIDTH_RATIO)
                                          image_pixel_aspect_ratio);
                                   Some (if w \<le> 0 then 1 else w, usable_terminal_height) }
                         else Some (w2, h2));
                      Some (if w3 \<le> 0 then 1 else w3, if h3 \<le> 0 then 1 else h3) } } }"

subsection \<open>The source rectangle computed in \<^verbatim>\<open>main\<close>\<close>

text \<open>
  Lines 1104 to 1129 of \<^verbatim>\<open>main\<close>: the crop window \<open>(src_x, src_y, src_w, src_h)\<close> from the
  image size after the transforms, the zoom factor and the pan offsets.
\<close>

definition source_rectangle ::
  "int \<Rightarrow> int \<Rightarrow> real \<Rightarrow> int \<Rightarrow> int \<Rightarrow> (int \<times> int \<times> int \<times> int) option" where
  "source_rectangle current_img_w current_img_h cli_zoom_factor offset_x offset_y =
     do { w0 \<leftarrow> f_to_int (fdiv (f_of_int current_img_w) cli_zoom_factor);
          h0 \<leftarrow> f_to_int (fdiv (f_of_int current_img_h) cli_zoom_factor);
          let w1 = (if w0 \<le> 0 then 1 else w0);
              h1 = (if h0 \<le> 0 then 1 else h0);
              src_w = (if w1 > current_img_w then current_img_w else w1);
              src_h = (if h1 > current_img_h then current_img_h else h1);
              x0 = (if offset_x < 0 then 0 else offset_x);
              y0 = (if offset_y < 0 then 0 else offset_y) in
          do { right \<leftarrow> add_int x0 src_w;
               x1 \<leftarrow> (if right > current_img_w then sub_int current_img_w src_w else Some x0);
               bottom \<leftarrow> add_int y0 src_h;
               y1 \<leftarrow> (if bottom > current_img_h then sub_int current_img_h src_h else Some y0);
               Some (if x1 < 0 then 0 else x1, if y1 < 0 then 0 else y1, src_w, src_h) } }"

subsection \<open>Escape codes: \<^verbatim>\<open>format_ansi_color_code\<close> and the caches\<close>

datatype ColorMode = COLOR_MODE_UNKNOWN | COLOR_MODE_16 | COLOR_MODE_256 | COLOR_MODE_TRUE_COLOR

text \<open>
  The process-wide state that rendering reads: the detected colour mode and the two
  arrays of cached escape strings, 16 and 256 entries, an entry being \<open>None\<close> while it
  is \<^verbatim>\<open>NULL\<close>.
\<close>

record globals =
  s_detected_color_mode :: ColorMode
  s_ansi_cache_16 :: "string option list"
  s_ansi_cache_256 :: "string option list"

text \<open>\<^verbatim>\<open>printf\<close>'s \<^verbatim>\<open>%d\<close>.\<close>

fun dec_nat :: "nat \<Rightarrow> string" where
  "dec_nat n = (if n < 10 then [''0123456789'' ! n]
                else dec_nat (n div 10) @ [''0123456789'' ! (n mod 10)])"

declare dec_nat.simps [simp del]

definition dec :: "int \<Rightarrow> string" where
  "dec i = (if i < 0 then CHR ''-'' # dec_nat (nat (- i)) else dec_nat (nat i))"

definition ESC :: char where
  "ESC = CHR 0x1B"

definition ansi16_text :: "int \<Rightarrow> string" where
  "ansi16_text i = (if i < 8 then ESC # ''[4'' @ dec i @ ''m''
                    else ESC # ''[10'' @ dec (i - 8) @ ''m'')"

definition ansi256_text :: "int \<Rightarrow> string" where
  "ansi256_text i = ESC # ''[48;5;'' @ dec i @ ''m''"

text \<open>
  \<^verbatim>\<open>init_ansi_cache\<close>: every entry is a block of 16 bytes holding the formatted text,
  or stays \<^verbatim>\<open>NULL\<close> when its allocation fails.
\<close>

definition init_ansi_cache :: "heap \<Rightarrow> globals \<Rightarrow> globals" where
  "init_ansi_cache heap gl =
     gl\<lparr>s_ansi_cache_16 :=
           map (\<lambda>i. case heap 16 of None \<Rightarrow> None | Some junk \<Rightarrow> Some (ansi16_text (int i))) [0..<16],
        s_ansi_cache_256 :=
           map (\<lambda>i. case heap 16 of None \<Rightarrow> None | Some junk \<Rightarrow> Some (ansi256_text (int i))) [0..<256]\<rparr>"

text \<open>
  \<^verbatim>\<open>detect_color_support\<close> (the branch compiled outside Windows), from the environment;
  \<^verbatim>\<open>strstr(h, n)\<close> is not \<^verbatim>\<open>NULL\<close> exactly when \<open>n\<close> occurs in \<open>h\<close>.
\<close>

definition strstr :: "string \<Rightarrow> string \<Rightarrow> bool" where
  "strstr haystack needle = sublist needle haystack"

definition detect_color_support :: "(string \<Rightarrow> string option) \<Rightarrow> ColorMode" where
  "detect_color_support getenv =
     (if (case getenv ''COLORTERM'' of None \<Rightarrow> False
          | Some colorterm \<Rightarrow> strstr colorterm ''truecolor'' \<or> strstr colorterm ''24bit'')
      then COLOR_MODE_TRUE_COLOR
      else if (case getenv ''KONSOLE_PROFILE_NAME'' of Some v \<Rightarrow> True
               | None \<Rightarrow> (case getenv ''KONSOLE_VERSION'' of Some v \<Rightarrow> True | None \<Rightarrow> False))
      then COLOR_MODE_TRUE_COLOR
      else if (case getenv ''TERM_PROGRAM'' of None \<Rightarrow> False | Some tp \<Rightarrow> strstr tp ''iTerm'')
      then COLOR_MODE_TRUE_COLOR
      else (case getenv ''TERM'' of
              None \<Rightarrow> COLOR_MODE_16
            | Some termv \<Rightarrow>
                if list_ex (strstr termv)
                     [''xterm-256color'', ''screen-256color'', ''tmux-256color'',
                      ''rxvt-unicode-256color'', ''linux-16color'', ''eterm-256color'']
                then COLOR_MODE_256
                else if strstr termv ''xterm'' \<or> strstr termv ''screen'' \<or> strstr termv ''vt100''
                        \<or> strstr termv ''ansi'' \<or> strstr termv ''linux''
                then COLOR_MODE_16
                else COLOR_MODE_16))"

text \<open>
  The line buffer of \<^verbatim>\<open>render_image\<close> has \<open>cap\<close> bytes, of which \<open>buf\<close> are written so
  far (\<^verbatim>\<open>buf_pos\<close> is their number, an \<^verbatim>\<open>int\<close>). Nothing in the source checks a write
  against the capacity: a write past it is undefined. \<^verbatim>\<open>sprintf\<close> also writes the
  terminating zero byte.
\<close>

definition emit :: "nat \<Rightarrow> string \<Rightarrow> string \<Rightarrow> nat \<Rightarrow> string option" where
  "emit cap buf text extra =
     (if length buf + length text + extra \<le> cap \<and> in_int_range (int (length buf + length text))
      then Some (buf @ text) else None)"

definition sprintf :: "nat \<Rightarrow> string \<Rightarrow> string \<Rightarrow> string option" where
  "sprintf cap buf text = emit cap buf text 1"

definition array_load :: "nat \<Rightarrow> 'a list \<Rightarrow> int \<Rightarrow> 'a option" where
  "array_load n xs i = (if 0 \<le> i \<and> i < int n \<and> nat i < length xs then Some (xs ! nat i) else None)"

definition format_ansi_color_code ::
  "globals \<Rightarrow> nat \<Rightarrow> string \<Rightarrow> byte \<Rightarrow> byte \<Rightarrow> byte \<Rightarrow> ColorMode \<Rightarrow> string option" where
  "format_ansi_color_code gl cap buf r g b mode =
     (case mode of
        COLOR_MODE_TRUE_COLOR \<Rightarrow>
          sprintf cap buf (ESC # ''[48;2;'' @ dec (uint r) @ '';'' @ dec (uint g) @ '';''
                             @ dec (uint b) @ ''m '')
      | COLOR_MODE_256 \<Rightarrow>
          (let color_code = rgb_to_256 r g b in
           do { cached \<leftarrow> array_load 256 (s_ansi_cache_256 gl) color_code;
                case cached of
                  Some text \<Rightarrow> do { buf1 \<leftarrow> emit cap buf text 0; emit cap buf1 '' '' 0 }
                | None \<Rightarrow> sprintf cap buf (ESC # ''[48;5;'' @ dec color_code @ ''m '') })
      | COLOR_MODE_16 \<Rightarrow>
          (let color_code = rgb_to_16 r g b in
           do { cached \<leftarrow> array_load 16 (s_ansi_cache_16 gl) color_code;
                case cached of
                  Some text \<Rightarrow> do { buf1 \<leftarrow> emit cap buf text 0; emit cap buf1 '' '' 0 }
                | None \<Rightarrow> sprintf cap buf (ESC # ''[4'' @ dec color_code @ ''m '') })
      | COLOR_MODE_UNKNOWN \<Rightarrow> emit cap buf '' '' 0)"

subsection \<open>Rendering: \<^verbatim>\<open>render_image\<close>\<close>

text \<open>
  The result is the state after the call and the chunks written to \<^verbatim>\<open>stdout\<close>, one per
  \<^verbatim>\<open>fwrite\<close>. The two early returns log an error and write nothing.
\<close>

definition render_pixel ::
  "byte list \<Rightarrow> int \<Rightarrow> int \<Rightarrow> byte \<Rightarrow> byte \<Rightarrow> byte \<Rightarrow> (byte \<times> byte \<times> byte) option" where
  "render_pixel img_data idx channels bg_r bg_g bg_b =
     (if channels = 4 then
        do { i3 \<leftarrow> add_int idx 3;
             a \<leftarrow> load img_data i3;
             let alpha_norm = fdiv (f_of_int (uint a)) 255 in
             do { v0 \<leftarrow> load img_data idx;
                  r \<leftarrow> f_to_uchar (fadd (fmul (f_of_int (uint v0)) alpha_norm)
                                         (fmul (f_of_int (uint bg_r)) (fsub 1 alpha_norm)));
                  i1 \<leftarrow> add_int idx 1;
                  v1 \<leftarrow> load img_data i1;
                  g \<leftarrow> f_to_uchar (fadd (fmul (f_of_int (uint v1)) alpha_norm)
                                         (fmul (f_of_int (uint bg_g)) (fsub 1 alpha_norm)));
                  i2 \<leftarrow> add_int idx 2;
                  v2 \<leftarrow> load img_data i2;
                  b \<leftarrow> f_to_uchar (fadd (fmul (f_of_int (uint v2)) alpha_norm)
                                         (fmul (f_of_int (uint bg_b)) (fsub 1 alpha_norm)));
                  Some (r, g, b) } }
      else
        do { r \<leftarrow> load img_data idx;
             i1 \<leftarrow> add_int idx 1;
             g \<leftarrow> load img_data i1;
             i2 \<leftarrow> add_int idx 2;
             b \<leftarrow> load img_data i2;
             Some (r, g, b) })"

definition render_image ::
  "nat \<Rightarrow> heap \<Rightarrow> (string \<Rightarrow> string option) \<Rightarrow> globals \<Rightarrow> byte list \<Rightarrow> int \<Rightarrow> int \<Rightarrow> int \<Rightarrow>
     byte \<Rightarrow> byte \<Rightarrow> byte \<Rightarrow> error + (globals \<times> string list)" where
  "render_image smax heap getenv gl img_data width height channels bg_r bg_g bg_b =
     (let max_pixel_size =
            (case s_detected_color_mode gl of
               COLOR_MODE_TRUE_COLOR \<Rightarrow> 21 | COLOR_MODE_256 \<Rightarrow> 13 | COLOR_MODE_16 \<Rightarrow> 9
             | COLOR_MODE_UNKNOWN \<Rightarrow> 2);
          buffer_size_per_line =
            size_add smax (size_mul smax (to_size smax width) max_pixel_size) 32
      in
      if buffer_size_per_line div max_pixel_size < to_size smax width then Inl SizeOverflow
      else
        case malloc heap buffer_size_per_line of
          None \<Rightarrow> Inl AllocationError
        | Some buffer \<Rightarrow>
            (let gl' = (if s_detected_color_mode gl = COLOR_MODE_UNKNOWN
                        then gl\<lparr>s_detected_color_mode := detect_color_support getenv\<rparr>
                        else gl)
             in
             case for_upto height (\<lambda>y out.
                    do { line \<leftarrow> for_upto width (\<lambda>x buf.
                           do { yw \<leftarrow> mul_int y width;
                                p \<leftarrow> add_int yw x;
                                idx \<leftarrow> mul_int p channels;
                                (r, g, b) \<leftarrow> render_pixel img_data idx channels bg_r bg_g bg_b;
                                format_ansi_color_code gl' buffer_size_per_line buf r g b
                                  (s_detected_color_mode gl') }) [];
                         line' \<leftarrow> sprintf buffer_size_per_line line (ESC # ''[0m'' @ [CHR 0x0A]);
                         Some (out @ [line']) }) [] of
               None \<Rightarrow> Inl UndefinedBehaviour
             | Some out \<Rightarrow> Inr (gl', out)))"

text \<open>An image whose \<open>n\<close> pixels all have the samples \<open>pixel\<close>.\<close>

definition uniform_image :: "byte list \<Rightarrow> nat \<Rightarrow> byte list" where
  "uniform_image pixel n = concat (replicate n pixel)"

section \<open>Properties\<close>

subsection \<open>The grey ramp of \<^verbatim>\<open>rgb_to_256\<close>\<close>

lemma rgb_to_256_gray_eq:
  "rgb_to_256 r r r =
     (if uint r < 3 then 16 else if uint r > 252 then 231 else 232 + (uint r - 3) div 10)"
  by (simp add: rgb_to_256_def)

text \<open>
  Claim C1, as stated, asks for a result that grows with \<open>r\<close> over all grey inputs.
  The white end of the ramp is the cube's white, index 231, which lies below every
  index of the ramp: from \<open>r = 242\<close> (index 255) to \<open>r = 253\<close> (index 231) the result
  falls.
\<close>

theorem rgb_to_256_gray_not_monotone:
  "\<not> (rgb_to_256 242 242 242 \<le> rgb_to_256 253 253 253)"
  by (simp add: rgb_to_256_gray_eq)

text \<open>
  Claim C1, amended: for a grey input \<open>r = g = b\<close> the result is 16 when \<open>r < 3\<close> and
  231 when \<open>r > 252\<close>; for \<open>3 \<le> r \<le> 242\<close> it is \<open>232 + (r - 3) / 10\<close>, a value between
  232 and 255; and it never decreases as \<open>r\<close> grows from 0 up to 242.
\<close>

theorem rgb_to_256_gray:
  "(uint r < 3 \<longrightarrow> rgb_to_256 r r r = 16) \<and>
   (252 < uint r \<longrightarrow> rgb_to_256 r r r = 231) \<and>
   (3 \<le> uint r \<and> uint r \<le> 242 \<longrightarrow>
      rgb_to_256 r r r = 232 + (uint r - 3) div 10 \<and>
      232 \<le> rgb_to_256 r r r \<and> rgb_to_256 r r r \<le> 255) \<and>
   (uint r \<le> uint r' \<and> uint r' \<le> 242 \<longrightarrow> rgb_to_256 r r r \<le> rgb_to_256 r' r' r')"
proof -
  have ramp: "3 \<le> uint r \<and> uint r \<le> 242 \<longrightarrow>
      232 \<le> 232 + (uint r - 3) div 10 \<and> 232 + (uint r - 3) div 10 \<le> 255"
    by auto
  have mono: "uint r \<le> uint r' \<and> uint r' \<le> 242 \<longrightarrow>
      rgb_to_256 r r r \<le> rgb_to_256 r' r' r'"
  proof
    assume a: "uint r \<le> uint r' \<and> uint r' \<le> 242"
    then have "(uint r - 3) div 10 \<le> (uint r' - 3) div 10"
      by (intro zdiv_mono1) auto
    moreover have "3 \<le> uint r' \<longrightarrow> 0 \<le> (uint r' - 3) div 10"
      by auto
    ultimately show "rgb_to_256 r r r \<le> rgb_to_256 r' r' r'"
      using a by (auto simp: rgb_to_256_gray_eq)
  qed
  show ?thesis
    using ramp mono by (simp add: rgb_to_256_gray_eq)
qed

theorem rgb_to_256_gray_witness:
  "uint (100 :: byte) \<le> uint (200 :: byte) \<and> uint (200 :: byte) \<le> 242 \<and>
   3 \<le> uint (100 :: byte) \<and> uint (2 :: byte) < 3 \<and> 252 < uint (254 :: byte) \<and>
   rgb_to_256 100 100 100 = 241 \<and> rgb_to_256 200 200 200 = 251 \<and>
   rgb_to_256 2 2 2 = 16 \<and> rgb_to_256 254 254 254 = 231 \<and>
   rgb_to_256 100 100 100 \<le> rgb_to_256 200 200 200"
  using rgb_to_256_gray [of 100 200] rgb_to_256_gray [of 2 2] rgb_to_256_gray [of 254 254]
    rgb_to_256_gray [of 200 200]
  by simp

subsection \<open>Palette indices and the escape-code caches\<close>

text \<open>
  Claim C10 asks that the index \<^verbatim>\<open>format_ansi_color_code\<close> uses on
  \<^verbatim>\<open>s_ansi_cache_256\<close> (256 entries) is at most 255. For the greys 243 to 252 the ramp
  formula \<open>232 + (r - 3) / 10\<close> gives 256: one past the last entry.
\<close>

theorem rgb_to_256_gray_243: "rgb_to_256 243 243 243 = 256"
  by (simp add: rgb_to_256_gray_eq)

subsection \<open>Loops that fill a buffer\<close>

lemma iterate_append:
  "iterate (xs @ ys) body s =
     (case iterate xs body s of None \<Rightarrow> None | Some s' \<Rightarrow> iterate ys body s')"
  by (induction xs arbitrary: s) (auto split: option.splits)

lemma iterate_prefix_rule:
  assumes init: "I 0 s"
    and step: "\<And>i s. i < n \<Longrightarrow> I (int i) s \<Longrightarrow> \<exists>s'. body (int i) s = Some s' \<and> I (int i + 1) s'"
  shows "k \<le> n \<Longrightarrow> \<exists>s'. iterate (map int [0..<k]) body s = Some s' \<and> I (int k) s'"
proof (induction k)
  case 0
  then show ?case using init by simp
next
  case (Suc k)
  then obtain s1 where s1: "iterate (map int [0..<k]) body s = Some s1" "I (int k) s1"
    by auto
  from Suc.prems have "k < n" by simp
  from step [OF this s1(2)] obtain s2 where "body (int k) s1 = Some s2" "I (int k + 1) s2"
    by blast
  then show ?case
    using s1 by (simp add: iterate_append add.commute)
qed

lemma for_upto_rule:
  assumes init: "I 0 s"
    and n: "0 \<le> n"
    and step: "\<And>i s. 0 \<le> i \<Longrightarrow> i < n \<Longrightarrow> I i s \<Longrightarrow> \<exists>s'. body i s = Some s' \<and> I (i + 1) s'"
  shows "\<exists>s'. for_upto n body s = Some s' \<and> I n s'"
proof -
  have "\<exists>s'. iterate (map int [0..<nat n]) body s = Some s' \<and> I (int (nat n)) s'"
  proof (rule iterate_prefix_rule [where n = "nat n"])
    show "I 0 s" by (rule init)
    show "\<exists>s'. body (int i) s = Some s' \<and> I (int i + 1) s'" if "i < nat n" "I (int i) s" for i s
      using step [of "int i" s] that by simp
  qed simp
  then show ?thesis
    using n by (simp add: for_upto_def)
qed

lemma lin_bounds:
  fixes w h c y x ch :: int
  assumes "0 \<le> y" "y < h" "0 \<le> x" "x < w" "0 \<le> ch" "ch < c"
  shows "0 \<le> y * w \<and> y * w < w * h * c"
    "0 \<le> y * w + x \<and> y * w + x < w * h * c"
    "0 \<le> (y * w + x) * c \<and> (y * w + x) * c < w * h * c"
    "0 \<le> (y * w + x) * c + ch \<and> (y * w + x) * c + ch < w * h * c"
proof -
  have w: "0 < w" and c: "0 < c" using assms by auto
  have yw: "0 \<le> y * w" using assms w by simp
  have p: "0 \<le> y * w + x" using yw assms by simp
  have pc: "0 \<le> (y * w + x) * c" using p c by simp
  have "y * w \<le> (h - 1) * w"
    using assms w by (intro mult_right_mono) auto
  then have "y * w + x + 1 \<le> h * w"
    using assms by (simp add: algebra_simps)
  then have "(y * w + x + 1) * c \<le> h * w * c"
    using c by (intro mult_right_mono) auto
  then have top: "(y * w + x) * c + ch < w * h * c"
    using assms by (simp add: algebra_simps)
  have "y * w + x \<le> (y * w + x) * c"
    using p c mult_left_mono [of 1 c "y * w + x"] by simp
  then have le: "y * w + x \<le> (y * w + x) * c" .
  show "0 \<le> y * w \<and> y * w < w * h * c"
    using yw le top assms(3,5) by linarith
  show "0 \<le> y * w + x \<and> y * w + x < w * h * c"
    using p le top assms(3,5) by linarith
  show "0 \<le> (y * w + x) * c \<and> (y * w + x) * c < w * h * c"
    using pc top assms(3,5) by linarith
  show "0 \<le> (y * w + x) * c + ch \<and> (y * w + x) * c + ch < w * h * c"
    using pc top assms(3,5) by linarith
qed

lemma sample_index_Some:
  assumes "0 \<le> y" "y < h" "0 \<le> x" "x < w" "0 \<le> ch" "ch < c" "w * h * c \<le> INT_MAX"
  shows "sample_index y w x c ch = Some ((y * w + x) * c + ch)"
proof -
  note b = lin_bounds [OF assms(1-6)]
  have "in_int_range (y * w)" "in_int_range (y * w + x)" "in_int_range ((y * w + x) * c)"
    "in_int_range ((y * w + x) * c + ch)"
    using b assms(7) by (auto simp: in_int_range_def INT_MIN_def INT_MAX_def)
  then show ?thesis
    by (simp add: sample_index_def mul_int_def add_int_def ck_int_def)
qed

lemma lin_decomp:
  fixes w c y x ch :: int
  assumes "0 \<le> x" "x < w" "0 \<le> ch" "ch < c"
  shows "((y * w + x) * c + ch) div c = y * w + x" "((y * w + x) * c + ch) mod c = ch"
    "(y * w + x) mod w = x" "(y * w + x) div w = y"
  using assms by (auto simp: div_pos_pos_trivial)


lemma alloc_size:
  assumes "0 < w" "0 < h" "0 < c" "w * h * c \<le> int smax"
  shows "size_mul smax (size_mul smax (to_size smax w) (to_size smax h)) (to_size smax c)
           = nat (w * h * c)"
proof -
  have wh: "0 < w * h" using assms by simp
  have "w * h * 1 \<le> w * h * c"
    using wh assms(3) by (intro mult_left_mono) auto
  then have whc: "w * h \<le> w * h * c" by simp
  have "w * 1 \<le> w * h"
    using assms by (intro mult_left_mono) auto
  then have w_le: "w \<le> w * h" by simp
  have "1 * h \<le> w * h"
    using assms by (intro mult_right_mono) auto
  then have h_le: "h \<le> w * h" by simp
  have "1 \<le> w * h" using wh by linarith
  then have "1 * c \<le> w * h * c"
    using assms(3) by (intro mult_right_mono) auto
  then have c_le: "c \<le> w * h * c" by simp
  have "w < int smax + 1" "h < int smax + 1" "c < int smax + 1"
    using assms(4) w_le h_le c_le whc by linarith+
  then have tw: "to_size smax w = nat w" and th: "to_size smax h = nat h"
    and tc: "to_size smax c = nat c"
    using assms(1-3) by (simp_all add: to_size_def mod_pos_pos_trivial)
  have "nat w * nat h = nat (w * h)"
    using assms by (simp add: nat_mult_distrib)
  moreover have "nat (w * h) < smax + 1"
    using whc assms(4) by linarith
  ultimately have m1: "size_mul smax (nat w) (nat h) = nat (w * h)"
    by (simp add: size_mul_def)
  have "nat (w * h) * nat c = nat (w * h * c)"
    using wh assms by (simp add: nat_mult_distrib)
  moreover have "nat (w * h * c) < smax + 1"
    using assms(4) by linarith
  ultimately have "size_mul smax (nat (w * h)) (nat c) = nat (w * h * c)"
    by (simp add: size_mul_def)
  then show ?thesis
    by (simp add: tw th tc m1)
qed

lemma copy_loops:
  fixes body :: "int \<Rightarrow> int \<Rightarrow> int \<Rightarrow> byte list \<Rightarrow> byte list option"
  assumes w: "0 < w" and h: "0 < h" and c: "0 < c"
    and len: "int (length out0) = w * h * c"
    and body: "\<And>y x ch out. 0 \<le> y \<Longrightarrow> y < h \<Longrightarrow> 0 \<le> x \<Longrightarrow> x < w \<Longrightarrow> 0 \<le> ch \<Longrightarrow> ch < c \<Longrightarrow>
       length out = length out0 \<Longrightarrow>
       body y x ch out = Some (out[nat ((y * w + x) * c + ch) := T ((y * w + x) * c + ch)])"
  shows "\<exists>out. for_upto h (\<lambda>y. for_upto w (\<lambda>x. for_upto c (body y x))) out0 = Some out \<and>
           length out = length out0 \<and> (\<forall>k. 0 \<le> k \<and> k < w * h * c \<longrightarrow> out ! nat k = T k)"
proof -
  define I where "I b out \<longleftrightarrow> length out = length out0 \<and> (\<forall>k. 0 \<le> k \<and> k < b \<longrightarrow> out ! nat k = T k)"
    for b :: int and out :: "byte list"
  have chan: "\<exists>out'. body y x ch out = Some out' \<and> I ((y * w + x) * c + (ch + 1)) out'"
    if "0 \<le> y" "y < h" "0 \<le> x" "x < w" "0 \<le> ch" "ch < c" "I ((y * w + x) * c + ch) out"
    for y x ch out
  proof -
    let ?k = "(y * w + x) * c + ch"
    have lo: "length out = length out0" using that(7) by (simp add: I_def)
    have k: "0 \<le> ?k" "?k < w * h * c"
      using lin_bounds(4) [OF that(1-6)] by auto
    then have kl: "nat ?k < length out" using len lo by linarith
    have "out[nat ?k := T ?k] ! nat j = T j" if "0 \<le> j" "j < ?k + 1" for j
    proof (cases "j = ?k")
      case True
      then show ?thesis using kl by simp
    next
      case False
      then have "nat j \<noteq> nat ?k" using that k by linarith
      moreover have "j < ?k" using False that by simp
      ultimately show ?thesis
        using \<open>I ?k out\<close> that by (simp add: I_def)
    qed
    then have "I (?k + 1) (out[nat ?k := T ?k])"
      using lo by (simp add: I_def)
    then show ?thesis
      using body [OF that(1-6) lo] by (simp add: add.assoc)
  qed
  have pixel: "\<exists>out'. for_upto c (body y x) out = Some out' \<and> I ((y * w + (x + 1)) * c) out'"
    if "0 \<le> y" "y < h" "0 \<le> x" "x < w" "I ((y * w + x) * c) out" for y x out
  proof -
    have "\<exists>out'. for_upto c (body y x) out = Some out' \<and> I ((y * w + x) * c + c) out'"
    proof (rule for_upto_rule [where I = "\<lambda>ch. I ((y * w + x) * c + ch)"])
      show "I ((y * w + x) * c + 0) out" using that by simp
      show "0 \<le> c" using c by simp
      show "\<exists>s'. body y x i s = Some s' \<and> I ((y * w + x) * c + (i + 1)) s'"
        if "0 \<le> i" "i < c" "I ((y * w + x) * c + i) s" for i s
        using chan [OF \<open>0 \<le> y\<close> \<open>y < h\<close> \<open>0 \<le> x\<close> \<open>x < w\<close> that] .
    qed
    then show ?thesis by (simp add: algebra_simps)
  qed
  have row: "\<exists>out'. for_upto w (\<lambda>x. for_upto c (body y x)) out = Some out' \<and> I ((y + 1) * w * c) out'"
    if "0 \<le> y" "y < h" "I (y * w * c) out" for y out
  proof -
    have "\<exists>out'. for_upto w (\<lambda>x. for_upto c (body y x)) out = Some out' \<and> I ((y * w + w) * c) out'"
    proof (rule for_upto_rule [where I = "\<lambda>x. I ((y * w + x) * c)"])
      show "I ((y * w + 0) * c) out" using that by simp
      show "0 \<le> w" using w by simp
      show "\<exists>s'. for_upto c (body y i) s = Some s' \<and> I ((y * w + (i + 1)) * c) s'"
        if "0 \<le> i" "i < w" "I ((y * w + i) * c) s" for i s
        using pixel [OF \<open>0 \<le> y\<close> \<open>y < h\<close> that] .
    qed
    then show ?thesis by (simp add: algebra_simps)
  qed
  have "\<exists>out. for_upto h (\<lambda>y. for_upto w (\<lambda>x. for_upto c (body y x))) out0 = Some out \<and> I (h * w * c) out"
  proof (rule for_upto_rule [where I = "\<lambda>y. I (y * w * c)"])
    show "I (0 * w * c) out0" by (auto simp: I_def)
    show "0 \<le> h" using h by simp
    show "\<exists>s'. for_upto w (\<lambda>x. for_upto c (body i x)) s = Some s' \<and> I ((i + 1) * w * c) s'"
      if "0 \<le> i" "i < h" "I (i * w * c) s" for i s
      using row [OF that] .
  qed
  then show ?thesis
    by (simp add: I_def mult.commute [of h w])
qed


lemma dims_le:
  fixes w h c :: int
  assumes "0 < w" "0 < h" "0 < c"
  shows "w \<le> w * h * c" "h \<le> w * h * c" "c \<le> w * h * c"
proof -
  have wh: "1 \<le> w * h" using assms by (simp add: int_one_le_iff_zero_less)
  have "w * 1 \<le> w * (h * c)"
    using assms by (intro mult_left_mono) (auto simp: int_one_le_iff_zero_less)
  then show "w \<le> w * h * c" by (simp add: mult.assoc)
  have "h * 1 \<le> h * (w * c)"
    using assms by (intro mult_left_mono) (auto simp: int_one_le_iff_zero_less)
  then show "h \<le> w * h * c" by (simp add: mult.assoc mult.left_commute)
  have "1 * c \<le> w * h * c"
    using wh assms(3) by (intro mult_right_mono) auto
  then show "c \<le> w * h * c" by simp
qed

lemma hflip_index_lin:
  assumes "0 \<le> x" "x < w" "0 \<le> ch" "ch < c"
  shows "hflip_index w c ((y * w + x) * c + ch) = (y * w + (w - 1 - x)) * c + ch"
  using assms by (simp add: hflip_index_def lin_decomp)

lemma vflip_index_lin:
  assumes "0 \<le> x" "x < w" "0 \<le> ch" "ch < c"
  shows "vflip_index w h c ((y * w + x) * c + ch) = ((h - 1 - y) * w + x) * c + ch"
  using assms by (simp add: vflip_index_def lin_decomp)

lemma div_bound:
  fixes k c n :: int
  assumes "0 < c" "k < n * c"
  shows "k div c < n"
proof (rule ccontr)
  assume "\<not> k div c < n"
  then have "n * c \<le> k div c * c"
    using assms(1) by (intro mult_right_mono) auto
  moreover have "k div c * c \<le> k"
    using assms(1) div_mult_mod_eq [of k c] pos_mod_sign [of c k] by linarith
  ultimately show False using assms(2) by linarith
qed

lemma index_split:
  fixes w h c k :: int
  assumes "0 < w" "0 < c" "0 \<le> k" "k < w * h * c"
  shows "\<exists>y x ch. 0 \<le> y \<and> y < h \<and> 0 \<le> x \<and> x < w \<and> 0 \<le> ch \<and> ch < c \<and> k = (y * w + x) * c + ch"
proof -
  let ?p = "k div c"
  have p0: "0 \<le> ?p" using assms by (simp add: pos_imp_zdiv_nonneg_iff)
  have p1: "?p < w * h" using div_bound [OF assms(2), of k "w * h"] assms(4) by simp
  have y0: "0 \<le> ?p div w" using p0 assms by (simp add: pos_imp_zdiv_nonneg_iff)
  have y1: "?p div w < h" using div_bound [OF assms(1), of ?p h] p1 by (simp add: mult.commute)
  have "k = ((?p div w) * w + ?p mod w) * c + k mod c"
    by simp
  moreover have "0 \<le> ?p mod w" "?p mod w < w" "0 \<le> k mod c" "k mod c < c"
    using assms by auto
  ultimately show ?thesis
    using y0 y1 by blast
qed

lemma flip_image_horizontal_char:
  assumes w: "0 < w" and h: "0 < h" and c: "0 < c"
    and len: "int (length img) = w * h * c"
    and fits: "w * h * c \<le> INT_MAX" "w * h * c \<le> int smax"
    and heap: "heap (length img) = Some junk"
  shows "\<exists>out. flip_image_horizontal smax heap (Some img) w h c = Inr out \<and>
           length out = length img \<and>
           (\<forall>k. 0 \<le> k \<and> k < w * h * c \<longrightarrow> out ! nat k = img ! nat (hflip_index w c k))"
proof -
  let ?out0 = "map junk [0..<length img]"
  let ?body = "\<lambda>y x channel out.
     do { w1 \<leftarrow> sub_int w 1;
          sx \<leftarrow> sub_int w1 x;
          src \<leftarrow> sample_index y w sx c channel;
          v \<leftarrow> load img src;
          dst \<leftarrow> sample_index y w x c channel;
          store out dst v }"
  have n: "nat (w * h * c) = length img" using len by simp
  have m: "malloc heap (size_mul smax (size_mul smax (to_size smax w) (to_size smax h))
             (to_size smax c)) = Some ?out0"
    using heap by (simp add: alloc_size [OF w h c fits(2)] n malloc_def)
  have wr: "in_int_range (w - 1)"
    unfolding in_int_range_def INT_MIN_def using dims_le(1) [OF w h c] w fits(1) by linarith
  have body: "?body y x ch out =
      Some (out[nat ((y * w + x) * c + ch) := img ! nat (hflip_index w c ((y * w + x) * c + ch))])"
    if "0 \<le> y" "y < h" "0 \<le> x" "x < w" "0 \<le> ch" "ch < c" "length out = length ?out0"
    for y x ch out
  proof -
    have sx: "0 \<le> w - 1 - x" "w - 1 - x < w" using that by auto
    then have sxr: "in_int_range (w - 1 - x)"
      using wr by (simp add: in_int_range_def INT_MIN_def INT_MAX_def)
    have src: "sample_index y w (w - 1 - x) c ch = Some ((y * w + (w - 1 - x)) * c + ch)"
      using sample_index_Some [OF that(1,2) sx that(5,6) fits(1)] .
    have dst: "sample_index y w x c ch = Some ((y * w + x) * c + ch)"
      using sample_index_Some [OF that(1-6) fits(1)] .
    have sb: "0 \<le> (y * w + (w - 1 - x)) * c + ch" "(y * w + (w - 1 - x)) * c + ch < w * h * c"
      using lin_bounds(4) [OF that(1,2) sx that(5,6)] by auto
    have db: "0 \<le> (y * w + x) * c + ch" "(y * w + x) * c + ch < w * h * c"
      using lin_bounds(4) [OF that(1-6)] by auto
    have ld: "load img ((y * w + (w - 1 - x)) * c + ch) = Some (img ! nat ((y * w + (w - 1 - x)) * c + ch))"
      using sb len by (simp add: load_def)
    have st: "store out ((y * w + x) * c + ch) v = Some (out[nat ((y * w + x) * c + ch) := v])" for v
      using db len that(7) by (simp add: store_def)
    show ?thesis
      using wr sxr by (simp add: sub_int_def ck_int_def src dst ld st hflip_index_lin [OF that(3-6)])
  qed
  have "int (length ?out0) = w * h * c" using len by simp
  from copy_loops [where body = ?body and ?out0.0 = ?out0
      and T = "\<lambda>k. img ! nat (hflip_index w c k)", OF w h c this body]
  obtain out where out: "for_upto h (\<lambda>y. for_upto w (\<lambda>x. for_upto c (?body y x))) ?out0 = Some out"
    "length out = length ?out0" "\<forall>k. 0 \<le> k \<and> k < w * h * c \<longrightarrow> out ! nat k = img ! nat (hflip_index w c k)"
    by blast
  have "flip_image_horizontal smax heap (Some img) w h c = Inr out"
    unfolding flip_image_horizontal_def using m out(1) by simp
  then show ?thesis
    using out(2,3) by simp
qed


lemma flip_image_vertical_char:
  assumes w: "0 < w" and h: "0 < h" and c: "0 < c"
    and len: "int (length img) = w * h * c"
    and fits: "w * h * c \<le> INT_MAX" "w * h * c \<le> int smax"
    and heap: "heap (length img) = Some junk"
  shows "\<exists>out. flip_image_vertical smax heap (Some img) w h c = Inr out \<and>
           length out = length img \<and>
           (\<forall>k. 0 \<le> k \<and> k < w * h * c \<longrightarrow> out ! nat k = img ! nat (vflip_index w h c k))"
proof -
  let ?out0 = "map junk [0..<length img]"
  let ?body = "\<lambda>y x channel out.
     do { h1 \<leftarrow> sub_int h 1;
          sy \<leftarrow> sub_int h1 y;
          src \<leftarrow> sample_index sy w x c channel;
          v \<leftarrow> load img src;
          dst \<leftarrow> sample_index y w x c channel;
          store out dst v }"
  have n: "nat (w * h * c) = length img" using len by simp
  have m: "malloc heap (size_mul smax (size_mul smax (to_size smax w) (to_size smax h))
             (to_size smax c)) = Some ?out0"
    using heap by (simp add: alloc_size [OF w h c fits(2)] n malloc_def)
  have hr: "in_int_range (h - 1)"
    unfolding in_int_range_def INT_MIN_def using dims_le(2) [OF w h c] h fits(1) by linarith
  have body: "?body y x ch out =
      Some (out[nat ((y * w + x) * c + ch) := img ! nat (vflip_index w h c ((y * w + x) * c + ch))])"
    if "0 \<le> y" "y < h" "0 \<le> x" "x < w" "0 \<le> ch" "ch < c" "length out = length ?out0"
    for y x ch out
  proof -
    have sy: "0 \<le> h - 1 - y" "h - 1 - y < h" using that by auto
    then have syr: "in_int_range (h - 1 - y)"
      using hr by (simp add: in_int_range_def INT_MIN_def INT_MAX_def)
    have src: "sample_index (h - 1 - y) w x c ch = Some (((h - 1 - y) * w + x) * c + ch)"
      using sample_index_Some [OF sy that(3-6) fits(1)] .
    have dst: "sample_index y w x c ch = Some ((y * w + x) * c + ch)"
      using sample_index_Some [OF that(1-6) fits(1)] .
    have sb: "0 \<le> ((h - 1 - y) * w + x) * c + ch" "((h - 1 - y) * w + x) * c + ch < w * h * c"
      using lin_bounds(4) [OF sy that(3-6)] by auto
    have db: "0 \<le> (y * w + x) * c + ch" "(y * w + x) * c + ch < w * h * c"
      using lin_bounds(4) [OF that(1-6)] by auto
    have ld: "load img (((h - 1 - y) * w + x) * c + ch) = Some (img ! nat (((h - 1 - y) * w + x) * c + ch))"
      using sb len by (simp add: load_def)
    have st: "store out ((y * w + x) * c + ch) v = Some (out[nat ((y * w + x) * c + ch) := v])" for v
      using db len that(7) by (simp add: store_def)
    show ?thesis
      using hr syr by (simp add: sub_int_def ck_int_def src dst ld st vflip_index_lin [OF that(3-6)])
  qed
  have "int (length ?out0) = w * h * c" using len by simp
  from copy_loops [where body = ?body and ?out0.0 = ?out0
      and T = "\<lambda>k. img ! nat (vflip_index w h c k)", OF w h c this body]
  obtain out where out: "for_upto h (\<lambda>y. for_upto w (\<lambda>x. for_upto c (?body y x))) ?out0 = Some out"
    "length out = length ?out0" "\<forall>k. 0 \<le> k \<and> k < w * h * c \<longrightarrow> out ! nat k = img ! nat (vflip_index w h c k)"
    by blast
  have "flip_image_vertical smax heap (Some img) w h c = Inr out"
    unfolding flip_image_vertical_def using m out(1) by simp
  then show ?thesis
    using out(2,3) by simp
qed

lemma hflip_index_involution:
  assumes "0 < w" "0 < c" "0 \<le> k" "k < w * h * c"
  shows "0 \<le> hflip_index w c k \<and> hflip_index w c k < w * h * c \<and>
         hflip_index w c (hflip_index w c k) = k"
proof -
  from index_split [OF assms] obtain y x ch where
    r: "0 \<le> y" "y < h" "0 \<le> x" "x < w" "0 \<le> ch" "ch < c" and k: "k = (y * w + x) * c + ch"
    by blast
  have sx: "0 \<le> w - 1 - x" "w - 1 - x < w" using r by auto
  have f: "hflip_index w c k = (y * w + (w - 1 - x)) * c + ch"
    using hflip_index_lin [OF r(3-6), of y] by (simp only: k)
  have "hflip_index w c ((y * w + (w - 1 - x)) * c + ch) = (y * w + (w - 1 - (w - 1 - x))) * c + ch"
    by (rule hflip_index_lin [OF sx r(5,6)])
  also have "\<dots> = k" by (simp add: k)
  finally have "hflip_index w c (hflip_index w c k) = k"
    by (simp only: f)
  then show ?thesis
    using lin_bounds(4) [OF r(1,2) sx r(5,6)] f by simp
qed

lemma vflip_index_involution:
  assumes "0 < w" "0 < c" "0 \<le> k" "k < w * h * c"
  shows "0 \<le> vflip_index w h c k \<and> vflip_index w h c k < w * h * c \<and>
         vflip_index w h c (vflip_index w h c k) = k"
proof -
  from index_split [OF assms] obtain y x ch where
    r: "0 \<le> y" "y < h" "0 \<le> x" "x < w" "0 \<le> ch" "ch < c" and k: "k = (y * w + x) * c + ch"
    by blast
  have sy: "0 \<le> h - 1 - y" "h - 1 - y < h" using r by auto
  have f: "vflip_index w h c k = ((h - 1 - y) * w + x) * c + ch"
    using vflip_index_lin [OF r(3-6), of h y] by (simp only: k)
  have "vflip_index w h c (((h - 1 - y) * w + x) * c + ch) = ((h - 1 - (h - 1 - y)) * w + x) * c + ch"
    by (rule vflip_index_lin [OF r(3-6)])
  also have "\<dots> = k" by (simp add: k)
  finally have "vflip_index w h c (vflip_index w h c k) = k"
    by (simp only: f)
  then show ?thesis
    using lin_bounds(4) [OF sy r(3-6)] f by simp
qed

lemma flip_examples:
  "flip_image_horizontal 4294967295 (\<lambda>n. Some (\<lambda>i. 0)) (Some [1, 2, 3, 4]) 2 2 1 = Inr [2, 1, 4, 3]"
  "flip_image_horizontal 4294967295 (\<lambda>n. Some (\<lambda>i. 0)) (Some [2, 1, 4, 3]) 2 2 1 = Inr [1, 2, 3, 4]"
  "flip_image_vertical 4294967295 (\<lambda>n. Some (\<lambda>i. 0)) (Some [1, 2, 3, 4]) 2 2 1 = Inr [3, 4, 1, 2]"
  "flip_image_vertical 4294967295 (\<lambda>n. Some (\<lambda>i. 0)) (Some [3, 4, 1, 2]) 2 2 1 = Inr [1, 2, 3, 4]"
  by (simp_all add: flip_image_horizontal_def flip_image_vertical_def malloc_def size_mul_def
      to_size_def for_upto_def sub_int_def ck_int_def in_int_range_def INT_MAX_def INT_MIN_def
      sample_index_def mul_int_def add_int_def load_def store_def upt_conv_Cons)

text \<open>
  On a buffer that \<^verbatim>\<open>int\<close> indices can address (width, height and channel count at least
  1, \<open>w * h * c\<close> samples, at most \<^verbatim>\<open>INT_MAX\<close>), \<^verbatim>\<open>flip_image_horizontal\<close> applied twice
  returns a buffer identical to the input, and so does \<^verbatim>\<open>flip_image_vertical\<close>, whenever
  both allocations succeed.
\<close>

theorem flips_are_involutions:
  assumes w: "0 < w" and h: "0 < h" and c: "0 < c"
    and len: "int (length img) = w * h * c"
    and fits: "w * h * c \<le> INT_MAX" "INT_MAX \<le> int smax"
    and heap1: "heap1 (length img) \<noteq> None" and heap2: "heap2 (length img) \<noteq> None"
  shows "(\<exists>mid. flip_image_horizontal smax heap1 (Some img) w h c = Inr mid \<and>
                flip_image_horizontal smax heap2 (Some mid) w h c = Inr img) \<and>
         (\<exists>mid. flip_image_vertical smax heap1 (Some img) w h c = Inr mid \<and>
                flip_image_vertical smax heap2 (Some mid) w h c = Inr img)"
proof -
  from heap1 heap2 obtain j1 j2 where j: "heap1 (length img) = Some j1" "heap2 (length img) = Some j2"
    by auto
  have fs: "w * h * c \<le> int smax" using fits by simp
  have hor: "\<exists>mid. flip_image_horizontal smax heap1 (Some img) w h c = Inr mid \<and>
                flip_image_horizontal smax heap2 (Some mid) w h c = Inr img"
  proof -
    from flip_image_horizontal_char [of w h c img smax heap1 j1, OF w h c len fits(1) fs j(1)] obtain mid where
      mid: "flip_image_horizontal smax heap1 (Some img) w h c = Inr mid" "length mid = length img"
        "\<forall>k. 0 \<le> k \<and> k < w * h * c \<longrightarrow> mid ! nat k = img ! nat (hflip_index w c k)"
      by blast
    have len': "int (length mid) = w * h * c" and j2: "heap2 (length mid) = Some j2"
      using mid(2) len j(2) by simp_all
    from flip_image_horizontal_char [of w h c mid smax heap2 j2, OF w h c len' fits(1) fs j2] obtain out where
      out: "flip_image_horizontal smax heap2 (Some mid) w h c = Inr out" "length out = length mid"
        "\<forall>k. 0 \<le> k \<and> k < w * h * c \<longrightarrow> out ! nat k = mid ! nat (hflip_index w c k)"
      by blast
    have "out = img"
    proof (rule nth_equalityI)
      show "length out = length img" using out(2) mid(2) by simp
      fix i assume "i < length out"
      then have i: "0 \<le> int i" "int i < w * h * c" using out(2) len' by simp_all
      note inv = hflip_index_involution [OF w c i]
      have "out ! i = mid ! nat (hflip_index w c (int i))"
        using out(3) i by (metis nat_int)
      also have "\<dots> = img ! nat (hflip_index w c (hflip_index w c (int i)))"
        using mid(3) inv by blast
      finally show "out ! i = img ! i" using inv by simp
    qed
    then show ?thesis using mid(1) out(1) by blast
  qed
  have ver: "\<exists>mid. flip_image_vertical smax heap1 (Some img) w h c = Inr mid \<and>
                flip_image_vertical smax heap2 (Some mid) w h c = Inr img"
  proof -
    from flip_image_vertical_char [of w h c img smax heap1 j1, OF w h c len fits(1) fs j(1)] obtain mid where
      mid: "flip_image_vertical smax heap1 (Some img) w h c = Inr mid" "length mid = length img"
        "\<forall>k. 0 \<le> k \<and> k < w * h * c \<longrightarrow> mid ! nat k = img ! nat (vflip_index w h c k)"
      by blast
    have len': "int (length mid) = w * h * c" and j2: "heap2 (length mid) = Some j2"
      using mid(2) len j(2) by simp_all
    from flip_image_vertical_char [of w h c mid smax heap2 j2, OF w h c len' fits(1) fs j2] obtain out where
      out: "flip_image_vertical smax heap2 (Some mid) w h c = Inr out" "length out = length mid"
        "\<forall>k. 0 \<le> k \<and> k < w * h * c \<longrightarrow> out ! nat k = mid ! nat (vflip_index w h c k)"
      by blast
    have "out = img"
    proof (rule nth_equalityI)
      show "length out = length img" using out(2) mid(2) by simp
      fix i assume "i < length out"
      then have i: "0 \<le> int i" "int i < w * h * c" using out(2) len' by simp_all
      note inv = vflip_index_involution [OF w c i]
      have "out ! i = mid ! nat (vflip_index w h c (int i))"
        using out(3) i by (metis nat_int)
      also have "\<dots> = img ! nat (vflip_index w h c (vflip_index w h c (int i)))"
        using mid(3) inv by blast
      finally show "out ! i = img ! i" using inv by simp
    qed
    then show ?thesis using mid(1) out(1) by blast
  qed
  show ?thesis using hor ver by blast
qed

theorem flips_are_involutions_witness:
  "(0::int) < 2 \<and> (0::int) < 1 \<and> int (length [1, 2, 3, 4 :: byte]) = 2 * 2 * 1 \<and>
   (2::int) * 2 * 1 \<le> INT_MAX \<and> INT_MAX \<le> int 4294967295 \<and>
   flip_image_horizontal 4294967295 (\<lambda>n. Some (\<lambda>i. 0)) (Some [1, 2, 3, 4]) 2 2 1 = Inr [2, 1, 4, 3] \<and>
   flip_image_horizontal 4294967295 (\<lambda>n. Some (\<lambda>i. 0)) (Some [2, 1, 4, 3]) 2 2 1 = Inr [1, 2, 3, 4] \<and>
   flip_image_vertical 4294967295 (\<lambda>n. Some (\<lambda>i. 0)) (Some [1, 2, 3, 4]) 2 2 1 = Inr [3, 4, 1, 2] \<and>
   flip_image_vertical 4294967295 (\<lambda>n. Some (\<lambda>i. 0)) (Some [3, 4, 1, 2]) 2 2 1 = Inr [1, 2, 3, 4]"
  using flips_are_involutions [of 2 2 1 "[1, 2, 3, 4]" 4294967295 "\<lambda>n. Some (\<lambda>i. 0)" "\<lambda>n. Some (\<lambda>i. 0)"]
  by (simp add: flip_examples INT_MAX_def)

subsection \<open>Rotation by 90 degrees\<close>

text \<open>
  Claim C2 asks that four applications of \<^verbatim>\<open>rotate_image_90_cw\<close> give the input back
  for every image. The source row is computed as \<^verbatim>\<open>original_w - 1 - x\<close> where \<open>x\<close>
  runs over the new width, which is the original height: for an image that is not
  square the source index leaves the buffer. On the 2 by 1 image below the first read
  is at index 2 of a buffer of 2 samples.
\<close>

theorem rotate_image_90_cw_2x1:
  "rotate_image_90_cw 4294967295 (\<lambda>n. Some (\<lambda>i. 0)) (Some [1, 2]) 2 1 1 = Inl UndefinedBehaviour"
  by (simp add: rotate_image_90_cw_def malloc_def size_mul_def to_size_def for_upto_def
      sub_int_def ck_int_def in_int_range_def INT_MAX_def INT_MIN_def sample_index_def
      mul_int_def add_int_def load_def upt_conv_Cons)

subsection \<open>Binary32 rounding\<close>

lemma ulp_up_numeral:
  "ulp_up (numeral k) q x =
     (if \<bar>x\<bar> < q * 16777216 then q else ulp_up (pred_numeral k) (2 * q) x)"
  by (simp add: numeral_eq_Suc)

lemma ulp_down_numeral:
  "ulp_down (numeral k) q x =
     (if q * 8388608 \<le> \<bar>x\<bar> then q else ulp_down (pred_numeral k) (q / 2) x)"
  by (simp add: numeral_eq_Suc)

lemmas fl32_eval = fl32_def ulp32_def ulp_up_numeral ulp_down_numeral round_half_even_def

subsection \<open>Rounding to an integer\<close>

lemma round_half_even_cases:
  "round_half_even y = \<lfloor>y\<rfloor> \<or> round_half_even y = \<lfloor>y\<rfloor> + 1"
  by (simp add: round_half_even_def)

lemma round_half_even_error: "\<bar>of_int (round_half_even y) - y\<bar> \<le> 1 / 2"
proof -
  have "of_int \<lfloor>y\<rfloor> \<le> y" "y < of_int \<lfloor>y\<rfloor> + 1" by linarith+
  then show ?thesis
    by (auto simp: round_half_even_def abs_le_iff)
qed

lemma round_half_even_of_int [simp]: "round_half_even (of_int n) = n"
  by (simp add: round_half_even_def)

lemma round_half_even_mono:
  assumes "y \<le> z"
  shows "round_half_even y \<le> round_half_even z"
proof (cases "\<lfloor>y\<rfloor> = \<lfloor>z\<rfloor>")
  case True
  then show ?thesis using assms by (auto simp: round_half_even_def)
next
  case False
  then have "\<lfloor>y\<rfloor> + 1 \<le> \<lfloor>z\<rfloor>"
    using floor_mono [OF assms] by linarith
  moreover have "round_half_even y \<le> \<lfloor>y\<rfloor> + 1" "\<lfloor>z\<rfloor> \<le> round_half_even z"
    using round_half_even_cases [of y] round_half_even_cases [of z] by auto
  ultimately show ?thesis by linarith
qed


subsection \<open>The quantum of a binary32 value\<close>

lemma ulp_down_spec:
  assumes "\<bar>x\<bar> < q * 16777216"
  shows "\<exists>k\<le>n. ulp_down n q x = q / 2 ^ k \<and> \<bar>x\<bar> < (q / 2 ^ k) * 16777216 \<and>
           ((q / 2 ^ k) * 8388608 \<le> \<bar>x\<bar> \<or> k = n)"
  using assms
proof (induction n arbitrary: q)
  case 0
  then show ?case by simp
next
  case (Suc n)
  show ?case
  proof (cases "q * 8388608 \<le> \<bar>x\<bar>")
    case True
    then have "ulp_down (Suc n) q x = q / 2 ^ 0 \<and> \<bar>x\<bar> < (q / 2 ^ 0) * 16777216 \<and>
           ((q / 2 ^ 0) * 8388608 \<le> \<bar>x\<bar> \<or> 0 = Suc n)"
      using Suc.prems by simp
    then show ?thesis by blast
  next
    case False
    then have "\<bar>x\<bar> < (q / 2) * 16777216" by simp
    from Suc.IH [OF this] obtain k where k: "k \<le> n" "ulp_down n (q / 2) x = q / 2 / 2 ^ k"
      "\<bar>x\<bar> < (q / 2 / 2 ^ k) * 16777216" "(q / 2 / 2 ^ k) * 8388608 \<le> \<bar>x\<bar> \<or> k = n"
      by blast
    have e: "q / 2 / 2 ^ k = q / 2 ^ Suc k" by simp
    have "ulp_down (Suc n) q x = q / 2 ^ Suc k \<and> \<bar>x\<bar> < (q / 2 ^ Suc k) * 16777216 \<and>
           ((q / 2 ^ Suc k) * 8388608 \<le> \<bar>x\<bar> \<or> Suc k = Suc n)"
      using k False unfolding e by simp
    moreover have "Suc k \<le> Suc n" using k(1) by simp
    ultimately show ?thesis by blast
  qed
qed

lemma ulp_up_spec:
  assumes "q * 8388608 \<le> \<bar>x\<bar>"
  shows "\<exists>k\<le>n. ulp_up n q x = q * 2 ^ k \<and> (q * 2 ^ k) * 8388608 \<le> \<bar>x\<bar> \<and>
           (\<bar>x\<bar> < (q * 2 ^ k) * 16777216 \<or> k = n)"
  using assms
proof (induction n arbitrary: q)
  case 0
  then show ?case by simp
next
  case (Suc n)
  show ?case
  proof (cases "\<bar>x\<bar> < q * 16777216")
    case True
    then have "ulp_up (Suc n) q x = q * 2 ^ 0 \<and> (q * 2 ^ 0) * 8388608 \<le> \<bar>x\<bar> \<and>
           (\<bar>x\<bar> < (q * 2 ^ 0) * 16777216 \<or> 0 = Suc n)"
      using Suc.prems by simp
    then show ?thesis by blast
  next
    case False
    then have "(2 * q) * 8388608 \<le> \<bar>x\<bar>" by simp
    from Suc.IH [OF this] obtain k where k: "k \<le> n" "ulp_up n (2 * q) x = 2 * q * 2 ^ k"
      "(2 * q * 2 ^ k) * 8388608 \<le> \<bar>x\<bar>" "\<bar>x\<bar> < (2 * q * 2 ^ k) * 16777216 \<or> k = n"
      by blast
    have e: "2 * q * 2 ^ k = q * 2 ^ Suc k" by simp
    have "ulp_up (Suc n) q x = q * 2 ^ Suc k \<and> (q * 2 ^ Suc k) * 8388608 \<le> \<bar>x\<bar> \<and>
           (\<bar>x\<bar> < (q * 2 ^ Suc k) * 16777216 \<or> Suc k = Suc n)"
      using k False unfolding e by simp
    moreover have "Suc k \<le> Suc n" using k(1) by simp
    ultimately show ?thesis by blast
  qed
qed

lemma ulp32_spec:
  "\<exists>i\<le>350. ulp32 x = 2 ^ i / 2 ^ 149 \<and> (i = 0 \<or> ulp32 x * 8388608 \<le> \<bar>x\<bar>) \<and>
     (\<bar>x\<bar> < ulp32 x * 16777216 \<or> i = 350)"
proof (cases "16777216 \<le> \<bar>x\<bar>")
  case True
  then have "2 * 8388608 \<le> \<bar>x\<bar>" by simp
  from ulp_up_spec [OF this, of 200] obtain k where k: "k \<le> 200" "ulp_up 200 2 x = 2 * 2 ^ k"
    "(2 * 2 ^ k) * 8388608 \<le> \<bar>x\<bar>" "\<bar>x\<bar> < (2 * 2 ^ k) * 16777216 \<or> k = 200"
    by blast
  have u: "ulp32 x = 2 * 2 ^ k" using True k(2) by (simp add: ulp32_def)
  have "(2::real) ^ (150 + k) / 2 ^ 149 = 2 * 2 ^ k"
    by (simp add: power_add)
  then have "ulp32 x = 2 ^ (150 + k) / 2 ^ 149" using u by simp
  moreover have "ulp32 x * 8388608 \<le> \<bar>x\<bar>" using k(3) u by simp
  moreover have "\<bar>x\<bar> < ulp32 x * 16777216 \<or> 150 + k = 350" using k(4) u by auto
  moreover have "150 + k \<le> 350" using k(1) by simp
  ultimately show ?thesis by blast
next
  case False
  then have "\<bar>x\<bar> < 1 * 16777216" by simp
  from ulp_down_spec [OF this, of 149] obtain k where k: "k \<le> 149" "ulp_down 149 1 x = 1 / 2 ^ k"
    "\<bar>x\<bar> < (1 / 2 ^ k) * 16777216" "(1 / 2 ^ k) * 8388608 \<le> \<bar>x\<bar> \<or> k = 149"
    by blast
  have u: "ulp32 x = 1 / 2 ^ k" using False k(2) by (simp add: ulp32_def)
  have "(2::real) ^ (149 - k) * 2 ^ k = 2 ^ 149"
    using k(1) by (simp flip: power_add)
  then have "(2::real) ^ (149 - k) / 2 ^ 149 = 1 / 2 ^ k"
    by (simp add: field_simps)
  then have "ulp32 x = 2 ^ (149 - k) / 2 ^ 149" using u by simp
  moreover have "149 - k = 0 \<or> ulp32 x * 8388608 \<le> \<bar>x\<bar>" using k(1,4) u by auto
  moreover have "\<bar>x\<bar> < ulp32 x * 16777216" using k(3) u by simp
  moreover have "149 - k \<le> 350" by simp
  ultimately show ?thesis by blast
qed

lemma ulp32_pos: "0 < ulp32 x"
  using ulp32_spec [of x] by auto


subsection \<open>Rounding to binary32\<close>

lemma pow2_step:
  fixes i j :: nat
  assumes "i < j"
  shows "2 * ((2::real) ^ i / 2 ^ 149) \<le> 2 ^ j / 2 ^ 149"
proof -
  have "(2::real) ^ Suc i \<le> 2 ^ j"
    using assms by (intro power_increasing) auto
  then show ?thesis by (simp add: field_simps)
qed

lemma fl32_error_ulp: "\<bar>fl32 x - x\<bar> \<le> ulp32 x / 2"
proof -
  let ?q = "ulp32 x"
  have q: "0 < ?q" by (rule ulp32_pos)
  have "fl32 x - x = ?q * (of_int (round_half_even (x / ?q)) - x / ?q)"
    using q by (simp add: fl32_def field_simps)
  then have "\<bar>fl32 x - x\<bar> = ?q * \<bar>of_int (round_half_even (x / ?q)) - x / ?q\<bar>"
    using q by (simp add: abs_mult)
  also have "\<dots> \<le> ?q * (1 / 2)"
    using q round_half_even_error [of "x / ?q"] by (intro mult_left_mono) auto
  finally show ?thesis by simp
qed

lemma fl32_rel_error:
  assumes "1 / 2 ^ 126 \<le> \<bar>x\<bar>"
  shows "\<bar>fl32 x - x\<bar> \<le> \<bar>x\<bar> / 16777216"
proof -
  from ulp32_spec [of x] obtain i where i: "ulp32 x = 2 ^ i / 2 ^ 149"
    "i = 0 \<or> ulp32 x * 8388608 \<le> \<bar>x\<bar>" by blast
  have "ulp32 x * 8388608 \<le> \<bar>x\<bar>"
  proof (cases "i = 0")
    case True
    then have "ulp32 x * 8388608 = 1 / 2 ^ 126" using i(1) by simp
    then show ?thesis using assms by simp
  next
    case False
    then show ?thesis using i(2) by simp
  qed
  then show ?thesis
    using fl32_error_ulp [of x] by simp
qed

lemma fl32_exact:
  assumes "\<bar>m\<bar> \<le> 16777216"
  shows "fl32 (of_int m * (2 ^ i / 2 ^ 149)) = of_int m * (2 ^ i / 2 ^ 149)"
proof -
  define p :: real where "p = 2 ^ i / 2 ^ 149"
  define x where "x = of_int m * p"
  define q where "q = ulp32 x"
  from ulp32_spec [of x] obtain j where j: "q = 2 ^ j / 2 ^ 149"
    "j = 0 \<or> q * 8388608 \<le> \<bar>x\<bar>" unfolding q_def by blast
  have q: "0 < q" unfolding q_def by (rule ulp32_pos)
  have p: "0 < p" unfolding p_def by simp
  have "\<exists>n::int. x / q = of_int n"
  proof (cases "j \<le> i")
    case True
    then have "(2::real) ^ i = 2 ^ (i - j) * 2 ^ j"
      by (simp flip: power_add)
    then have "p = 2 ^ (i - j) * q"
      by (simp add: p_def j(1))
    then have "x / q = of_int (m * 2 ^ (i - j))"
      using q by (simp add: x_def)
    then show ?thesis by blast
  next
    case False
    then have lt: "i < j" by simp
    then have "q * 8388608 \<le> \<bar>x\<bar>" using j(2) by auto
    moreover have "\<bar>x\<bar> = \<bar>of_int m\<bar> * p" using p by (simp add: x_def abs_mult)
    moreover have "\<bar>of_int m :: real\<bar> * p \<le> 16777216 * p"
      using assms p by (intro mult_right_mono) (auto simp flip: of_int_abs)
    moreover have "2 * p \<le> q" using pow2_step [OF lt] j(1) by (simp add: p_def)
    ultimately have "\<bar>x\<bar> = q * 8388608" by linarith
    then have "x = q * 8388608 \<or> x = - (q * 8388608)" by linarith
    then have "x / q = of_int 8388608 \<or> x / q = of_int (- 8388608)"
      using q by (auto simp: field_simps)
    then show ?thesis by blast
  qed
  then obtain n :: int where "x / q = of_int n" by blast
  then have "fl32 x = q * (x / q)"
    by (simp add: fl32_def q_def)
  then have "fl32 x = x" using q by simp
  then show ?thesis by (simp add: x_def p_def)
qed

lemma fl32_of_int:
  assumes "\<bar>n\<bar> \<le> 16777216"
  shows "fl32 (of_int n) = of_int n"
  using fl32_exact [OF assms, of 149] by simp

lemma fl32_dyadic:
  assumes "\<bar>m\<bar> \<le> 16777216" "k \<le> 149"
  shows "fl32 (of_int m / 2 ^ k) = of_int m / 2 ^ k"
proof -
  have "(2::real) ^ (149 - k) * 2 ^ k = 2 ^ 149"
    using assms(2) by (simp flip: power_add)
  then have "(2::real) ^ (149 - k) / 2 ^ 149 = 1 / 2 ^ k"
    by (simp add: field_simps)
  then show ?thesis
    using fl32_exact [OF assms(1), of "149 - k"] by simp
qed

lemma fl32_scaled:
  assumes "\<bar>m\<bar> \<le> 16777216"
  shows "fl32 (of_int m * 2 ^ k) = of_int m * 2 ^ k"
proof -
  have "(2::real) ^ (149 + k) / 2 ^ 149 = 2 ^ k"
    by (simp add: power_add)
  then show ?thesis
    using fl32_exact [OF assms, of "149 + k"] by simp
qed

lemma fl32_0 [simp]: "fl32 0 = 0"
  using fl32_of_int [of 0] by simp

lemma ulp32_mono_abs:
  assumes "\<bar>x\<bar> \<le> \<bar>y\<bar>"
  shows "ulp32 x \<le> ulp32 y"
proof (rule ccontr)
  assume "\<not> ulp32 x \<le> ulp32 y"
  then have gt: "ulp32 y < ulp32 x" by simp
  from ulp32_spec [of x] obtain i where i: "i \<le> 350" "ulp32 x = 2 ^ i / 2 ^ 149"
    "i = 0 \<or> ulp32 x * 8388608 \<le> \<bar>x\<bar>" by blast
  from ulp32_spec [of y] obtain j where j: "ulp32 y = 2 ^ j / 2 ^ 149"
    "\<bar>y\<bar> < ulp32 y * 16777216 \<or> j = 350" by blast
  have "(2::real) ^ j < 2 ^ i" using gt i(2) j(1) by (simp add: field_simps)
  then have lt: "j < i" by simp
  then have "ulp32 x * 8388608 \<le> \<bar>x\<bar>" "\<bar>y\<bar> < ulp32 y * 16777216"
    using i(1,3) j(2) by auto
  moreover have "2 * ulp32 y \<le> ulp32 x" using pow2_step [OF lt] i(2) j(1) by simp
  ultimately show False using assms by linarith
qed

lemma round_half_even_ge:
  assumes "of_int n \<le> y"
  shows "n \<le> round_half_even y"
  using round_half_even_mono [OF assms] by simp

lemma round_half_even_le:
  assumes "y \<le> of_int n"
  shows "round_half_even y \<le> n"
  using round_half_even_mono [OF assms] by simp

lemma fl32_mono:
  assumes "x \<le> y"
  shows "fl32 x \<le> fl32 y"
proof -
  let ?qx = "ulp32 x" and ?qy = "ulp32 y"
  have qx: "0 < ?qx" and qy: "0 < ?qy" by (rule ulp32_pos)+
  from ulp32_spec [of x] obtain i where i: "i \<le> 350" "?qx = 2 ^ i / 2 ^ 149"
    "i = 0 \<or> ?qx * 8388608 \<le> \<bar>x\<bar>" "\<bar>x\<bar> < ?qx * 16777216 \<or> i = 350" by blast
  from ulp32_spec [of y] obtain j where j: "j \<le> 350" "?qy = 2 ^ j / 2 ^ 149"
    "j = 0 \<or> ?qy * 8388608 \<le> \<bar>y\<bar>" "\<bar>y\<bar> < ?qy * 16777216 \<or> j = 350" by blast
  consider "i = j" | "i < j" | "j < i" by linarith
  then show ?thesis
  proof cases
    case 1
    then have e: "?qx = ?qy" using i(2) j(2) by simp
    have "x / ?qy \<le> y / ?qy" using assms qy by (simp add: divide_right_mono)
    then have "round_half_even (x / ?qy) \<le> round_half_even (y / ?qy)"
      by (rule round_half_even_mono)
    then show ?thesis
      using qy by (simp add: fl32_def e)
  next
    case 2
    then have bx: "\<bar>x\<bar> < ?qx * 16777216" and yb: "?qy * 8388608 \<le> \<bar>y\<bar>"
      using i(1,4) j(1,3) by auto
    have step: "2 * ?qx \<le> ?qy" using pow2_step [OF 2] i(2) j(2) by simp
    have ypos: "0 < y"
    proof (rule ccontr)
      assume "\<not> 0 < y"
      then have "\<bar>y\<bar> \<le> \<bar>x\<bar>" using assms by simp
      then show False using bx yb step qx by linarith
    qed
    have "x / ?qx \<le> of_int 16777216" using bx qx by (simp add: field_simps abs_less_iff)
    then have "round_half_even (x / ?qx) \<le> 16777216" by (rule round_half_even_le)
    then have "(of_int (round_half_even (x / ?qx)) :: real) \<le> 16777216" by linarith
    then have "fl32 x \<le> ?qx * 16777216"
      unfolding fl32_def using qx by (intro mult_left_mono) auto
    moreover have "of_int 8388608 \<le> y / ?qy" using yb ypos qy by (simp add: field_simps)
    then have "8388608 \<le> round_half_even (y / ?qy)" by (rule round_half_even_ge)
    then have "(8388608 :: real) \<le> of_int (round_half_even (y / ?qy))" by linarith
    then have "?qy * 8388608 \<le> fl32 y"
      unfolding fl32_def using qy by (intro mult_left_mono) auto
    ultimately show ?thesis using step by linarith
  next
    case 3
    then have yb: "\<bar>y\<bar> < ?qy * 16777216" and bx: "?qx * 8388608 \<le> \<bar>x\<bar>"
      using i(1,3) j(1,4) by auto
    have step: "2 * ?qy \<le> ?qx" using pow2_step [OF 3] i(2) j(2) by simp
    have xneg: "x < 0"
    proof (rule ccontr)
      assume "\<not> x < 0"
      then have "\<bar>x\<bar> \<le> \<bar>y\<bar>" using assms by simp
      then show False using bx yb step qy by linarith
    qed
    have "of_int (- 16777216) \<le> y / ?qy" using yb qy by (simp add: field_simps abs_less_iff)
    then have "- 16777216 \<le> round_half_even (y / ?qy)" by (rule round_half_even_ge)
    then have "(- 16777216 :: real) \<le> of_int (round_half_even (y / ?qy))" by linarith
    then have "?qy * (- 16777216) \<le> fl32 y"
      unfolding fl32_def using qy by (intro mult_left_mono) auto
    moreover have "x / ?qx \<le> of_int (- 8388608)" using bx xneg qx by (simp add: field_simps)
    then have "round_half_even (x / ?qx) \<le> - 8388608" by (rule round_half_even_le)
    then have "(of_int (round_half_even (x / ?qx)) :: real) \<le> - 8388608" by linarith
    then have "fl32 x \<le> ?qx * (- 8388608)"
      unfolding fl32_def using qx by (intro mult_left_mono) auto
    ultimately show ?thesis using step by linarith
  qed
qed


lemmas c_eval = f_of_int_def fadd_def fsub_def fmul_def fdiv_def f_to_int_def f_to_uchar_def
  ck_int_def in_int_range_def INT_MAX_def INT_MIN_def sub_int_def add_int_def mul_int_def trunc_def
  TERMINAL_CHAR_HEIGHT_TO_WIDTH_RATIO_def

lemma bind_weak_cong: "x = y \<Longrightarrow> Option.bind x f = Option.bind y f"
  by simp


subsection \<open>The source rectangle\<close>

text \<open>
  Claim C6 asks that the clamping in \<^verbatim>\<open>main\<close> puts the crop rectangle inside the image
  for every pan offset. The test \<^verbatim>\<open>src_x + src_w > current_img_w\<close> adds before it
  compares: for an offset within \<open>src_w\<close> of \<^verbatim>\<open>INT_MAX\<close> the sum overflows, which is
  undefined, and no rectangle inside the image is established. (Where the overflow
  wraps, the sum is negative, the test fails and \<open>src_x\<close> keeps the offset.)
\<close>

theorem source_rectangle_offset_overflow:
  "source_rectangle 100 50 1 2147483647 0 = None"
  by (simp add: source_rectangle_def c_eval fl32_eval Let_def cong: bind_weak_cong let_weak_cong)

subsection \<open>Rendering\<close>

lemma dec_255: "dec 255 = ''255''"
  by (simp add: dec_def dec_nat.simps)

lemma render_pixel_white_rgb:
  "render_pixel [255, 255, 255] 0 3 bg_r bg_g bg_b = Some (255, 255, 255)"
  by (simp add: render_pixel_def load_def c_eval cong: bind_weak_cong)

lemma render_pixel_white_rgba:
  "render_pixel [255, 255, 255, 255] 0 4 bg_r bg_g bg_b = Some (255, 255, 255)"
proof -
  have a: "fdiv (f_of_int 255) 255 = 1"
    by (simp add: c_eval fl32_eval)
  have z: "fsub 1 1 = 0" by (simp add: fsub_def)
  have m: "fmul x 0 = 0" for x by (simp add: fmul_def)
  have v: "fadd (fmul (f_of_int 255) 1) 0 = 255"
    by (simp add: c_eval fl32_eval)
  have u: "f_to_uchar 255 = Some 255" by (simp add: f_to_uchar_def trunc_def)
  show ?thesis
    by (simp add: render_pixel_def load_def add_int_def ck_int_def in_int_range_def INT_MAX_def
        INT_MIN_def Let_def a z m v u)
qed

lemma line_buffer_size:
  assumes "65535 \<le> smax"
  shows "size_add smax (size_mul smax (to_size smax 1) 21) 32 = 53"
proof -
  have "to_size smax 1 = 1"
    using assms by (simp add: to_size_def mod_pos_pos_trivial)
  then show ?thesis
    using assms by (simp add: size_add_def size_mul_def)
qed

text \<open>
  Claim C8: rendering a 1 by 1 image whose pixel is white, with 3 channels or with 4
  channels and full opacity, in true-colour mode writes exactly one line: the sequence
  \<^verbatim>\<open>ESC[48;2;255;255;255m\<close>, a space, \<^verbatim>\<open>ESC[0m\<close> and a newline (for every background
  colour, given that the line buffer is allocated).
\<close>

theorem render_image_white_pixel:
  assumes mode: "s_detected_color_mode gl = COLOR_MODE_TRUE_COLOR"
    and heap: "heap 53 = Some junk" and smax: "65535 \<le> smax"
  shows "render_image smax heap getenv gl [255, 255, 255] 1 1 3 bg_r bg_g bg_b
           = Inr (gl, [ESC # ''[48;2;255;255;255m '' @ ESC # ''[0m'' @ [CHR 0x0A]]) \<and>
         render_image smax heap getenv gl [255, 255, 255, 255] 1 1 4 bg_r bg_g bg_b
           = Inr (gl, [ESC # ''[48;2;255;255;255m '' @ ESC # ''[0m'' @ [CHR 0x0A]])"
proof -
  have t: "to_size smax 1 = 1"
    using smax by (simp add: to_size_def mod_pos_pos_trivial)
  have bs: "size_add smax (size_mul smax (Suc 0) 21) 32 = 53"
    using line_buffer_size [OF smax] t by simp
  have idx: "mul_int 0 1 = Some 0" "add_int 0 0 = Some 0" "mul_int 0 3 = Some 0" "mul_int 0 4 = Some 0"
    by (simp_all add: c_eval)
  show ?thesis
    by (simp add: render_image_def mode heap bs t malloc_def for_upto_def
        idx render_pixel_white_rgb render_pixel_white_rgba format_ansi_color_code_def sprintf_def
        emit_def dec_255 in_int_range_def INT_MAX_def INT_MIN_def)
qed

theorem render_image_white_pixel_witness:
  "s_detected_color_mode
     \<lparr>s_detected_color_mode = COLOR_MODE_TRUE_COLOR, s_ansi_cache_16 = [], s_ansi_cache_256 = []\<rparr>
     = COLOR_MODE_TRUE_COLOR \<and>
   (65535::nat) \<le> 4294967295 \<and>
   render_image 4294967295 (\<lambda>n. Some (\<lambda>i. 0)) (\<lambda>v. None)
     \<lparr>s_detected_color_mode = COLOR_MODE_TRUE_COLOR, s_ansi_cache_16 = [], s_ansi_cache_256 = []\<rparr>
     [255, 255, 255, 255] 1 1 4 0 0 0
     = Inr (\<lparr>s_detected_color_mode = COLOR_MODE_TRUE_COLOR, s_ansi_cache_16 = [],
              s_ansi_cache_256 = []\<rparr>,
            [ESC # ''[48;2;255;255;255m '' @ ESC # ''[0m'' @ [CHR 0x0A]])"
  using render_image_white_pixel [of
      "\<lparr>s_detected_color_mode = COLOR_MODE_TRUE_COLOR, s_ansi_cache_16 = [], s_ansi_cache_256 = []\<rparr>"
      "\<lambda>n. Some (\<lambda>i. 0)" "\<lambda>i. 0" 4294967295 "\<lambda>v. None" 0 0 0]
  by simp

text \<open>
  Claim C3 asks that rendering an image of 1 or 2 channels reads only samples that
  exist. Every pixel that does not have 4 channels is read as three samples,
  \<^verbatim>\<open>img_data[idx]\<close>, \<^verbatim>\<open>img_data[idx+1]\<close> and \<^verbatim>\<open>img_data[idx+2]\<close>: on a 1 by 1 image of one
  channel the second read is at index 1 of a buffer of one sample, and on a 1 by 1 image
  of two channels the third read is at index 2 of a buffer of two.
\<close>

theorem render_image_gray_reads_past_end:
  "render_image 4294967295 (\<lambda>n. Some (\<lambda>i. 0)) (\<lambda>v. None)
     \<lparr>s_detected_color_mode = COLOR_MODE_TRUE_COLOR, s_ansi_cache_16 = [], s_ansi_cache_256 = []\<rparr>
     [7] 1 1 1 0 0 0 = Inl UndefinedBehaviour \<and>
   render_image 4294967295 (\<lambda>n. Some (\<lambda>i. 0)) (\<lambda>v. None)
     \<lparr>s_detected_color_mode = COLOR_MODE_TRUE_COLOR, s_ansi_cache_16 = [], s_ansi_cache_256 = []\<rparr>
     [7, 255] 1 1 2 0 0 0 = Inl UndefinedBehaviour"
  by (simp add: render_image_def size_add_def size_mul_def to_size_def malloc_def for_upto_def
      render_pixel_def load_def c_eval Let_def cong: bind_weak_cong let_weak_cong)

subsection \<open>Display size\<close>

text \<open>
  Claim C5 asks that the computed width never exceeds the terminal's columns, which is
  what the function's last step, commented \<^verbatim>\<open>Final clamping to ensure it doesn't exceed
  terminal size after zoom\<close>, is for. A 1 by 1 image at zoom 1 on a terminal of 16777227
  columns and 11184820 rows (11184818 usable; \<^verbatim>\<open>get_terminal_size\<close> takes such a size from
  \<^verbatim>\<open>COLUMNS\<close> and \<^verbatim>\<open>LINES\<close>) gets the width 16777228: when the height is clamped to the
  usable rows, the width is recomputed from it in binary32 and is not compared with the
  columns again.
\<close>

theorem calculate_display_dimensions_wide_terminal:
  "calculate_display_dimensions 16777227 11184820 1 1 1 = Some (16777228, 11184818) \<and>
   \<not> (16777228 \<le> (16777227 :: int))"
  by (simp add: calculate_display_dimensions_def c_eval fl32_eval Let_def
      cong: bind_weak_cong let_weak_cong)

subsection \<open>More on binary32 values\<close>

lemma ulp32_covers:
  assumes "\<bar>x\<bar> < 2 ^ 200"
  shows "\<bar>x\<bar> < ulp32 x * 16777216"
proof -
  from ulp32_spec [of x] obtain i where i: "ulp32 x = 2 ^ i / 2 ^ 149"
    "i = 0 \<or> ulp32 x * 8388608 \<le> \<bar>x\<bar>" "\<bar>x\<bar> < ulp32 x * 16777216 \<or> i = 350" by blast
  show ?thesis
  proof (rule ccontr)
    assume "\<not> \<bar>x\<bar> < ulp32 x * 16777216"
    then have e: "i = 350" using i(3) by simp
    then have "ulp32 x * 8388608 \<le> \<bar>x\<bar>" using i(2) by simp
    moreover have "ulp32 x = 2 ^ 201" using i(1) e by simp
    ultimately show False using assms by simp
  qed
qed

lemma fl32_repr:
  assumes "\<bar>x\<bar> < 2 ^ 200"
  shows "\<exists>i n. fl32 x = of_int n * (2 ^ i / 2 ^ 149) \<and> \<bar>n\<bar> \<le> 16777216 \<and>
           ulp32 x = 2 ^ i / 2 ^ 149"
proof -
  from ulp32_spec [of x] obtain i where i: "ulp32 x = 2 ^ i / 2 ^ 149" by blast
  have q: "0 < ulp32 x" by (rule ulp32_pos)
  let ?n = "round_half_even (x / ulp32 x)"
  have "of_int (- 16777216) \<le> x / ulp32 x" "x / ulp32 x \<le> of_int 16777216"
    using q ulp32_covers [OF assms] by (simp_all add: field_simps abs_less_iff)
  then have "- 16777216 \<le> ?n" "?n \<le> 16777216"
    using round_half_even_ge round_half_even_le by blast+
  then have "\<bar>?n\<bar> \<le> 16777216" by simp
  moreover have "fl32 x = of_int ?n * (2 ^ i / 2 ^ 149)"
    by (simp add: fl32_def i mult.commute)
  ultimately show ?thesis using i by blast
qed

lemma fl32_idem:
  assumes "\<bar>x\<bar> < 2 ^ 200"
  shows "fl32 (fl32 x) = fl32 x"
proof -
  from fl32_repr [OF assms] obtain i n where
    r: "fl32 x = of_int n * (2 ^ i / 2 ^ 149)" "\<bar>n\<bar> \<le> 16777216" by blast
  show ?thesis
    unfolding r(1) by (rule fl32_exact [OF r(2)])
qed

lemma trunc_of_int [simp]: "trunc (of_int n) = n"
  by (simp add: trunc_def)

lemma trunc_nonneg: "0 \<le> x \<Longrightarrow> 0 \<le> trunc x \<and> of_int (trunc x) \<le> x \<and> x < of_int (trunc x) + 1"
  by (simp add: trunc_def)

lemma trunc_nonpos: "x \<le> 0 \<Longrightarrow> trunc x \<le> 0 \<and> x \<le> of_int (trunc x) \<and> of_int (trunc x) - 1 < x"
proof (cases "x = 0")
  case True
  then show ?thesis by (simp add: trunc_def)
next
  case False
  assume "x \<le> 0"
  then have "x < 0" using False by simp
  then have "trunc x = \<lceil>x\<rceil>" by (simp add: trunc_def)
  moreover have "\<lceil>x\<rceil> \<le> 0" using \<open>x \<le> 0\<close> by (simp add: ceiling_le_zero)
  moreover have "x \<le> of_int \<lceil>x\<rceil>" "of_int \<lceil>x\<rceil> - 1 < x" by linarith+
  ultimately show ?thesis by simp
qed

lemma trunc_mono: "x \<le> y \<Longrightarrow> trunc x \<le> trunc y"
proof -
  assume le: "x \<le> y"
  consider "0 \<le> x" | "x < 0" "0 \<le> y" | "x < 0" "y < 0" by linarith
  then show ?thesis
  proof cases
    case 1
    then show ?thesis using le by (simp add: trunc_def floor_mono)
  next
    case 2
    then have "trunc x \<le> 0" "0 \<le> trunc y"
      using trunc_nonpos [of x] trunc_nonneg [of y] by simp_all
    then show ?thesis by simp
  next
    case 3
    then show ?thesis using le by (simp add: trunc_def ceiling_mono)
  qed
qed

lemma fl32_trunc_exact:
  assumes "\<bar>x\<bar> < 2 ^ 200"
  shows "fl32 (of_int (trunc (fl32 x))) = of_int (trunc (fl32 x))"
proof -
  from fl32_repr [OF assms] obtain i n where
    r: "fl32 x = of_int n * (2 ^ i / 2 ^ 149)" "\<bar>n\<bar> \<le> 16777216" by blast
  show ?thesis
  proof (cases "149 \<le> i")
    case True
    then have "(2::real) ^ i = 2 ^ (i - 149) * 2 ^ 149"
      by (metis le_add_diff_inverse2 power_add)
    then have "(2::real) ^ i / 2 ^ 149 = 2 ^ (i - 149)"
      by simp
    then have z: "fl32 x = of_int (n * 2 ^ (i - 149))"
      by (simp add: r(1))
    have "fl32 (fl32 x) = fl32 x"
      unfolding r(1) by (rule fl32_exact [OF r(2)])
    then show ?thesis
      unfolding z trunc_of_int .
  next
    case False
    then have "i + 1 \<le> 149" by simp
    then have "(2::real) ^ (i + 1) \<le> 2 ^ 149"
      by (intro power_increasing) auto
    then have p: "(2::real) ^ i / 2 ^ 149 \<le> 1 / 2" "0 \<le> (2::real) ^ i / 2 ^ 149"
      by (simp_all add: field_simps)
    have "\<bar>fl32 x\<bar> = \<bar>of_int n\<bar> * (2 ^ i / 2 ^ 149)"
      by (simp add: r(1) abs_mult)
    also have "\<dots> \<le> 16777216 * (1 / 2)"
      using r(2) p by (intro mult_mono) (auto simp flip: of_int_abs)
    finally have b: "\<bar>fl32 x\<bar> \<le> 8388608" by simp
    have "\<bar>trunc (fl32 x)\<bar> \<le> 16777216"
    proof (cases "0 \<le> fl32 x")
      case True
      then show ?thesis using trunc_nonneg [OF True] b by linarith
    next
      case False
      then have "fl32 x \<le> 0" by simp
      from trunc_nonpos [OF this] show ?thesis using b by linarith
    qed
    then show ?thesis by (rule fl32_of_int)
  qed
qed

lemma fl32_abs_error:
  assumes "\<bar>t\<bar> \<le> 1024"
  shows "\<bar>fl32 t - t\<bar> \<le> 1 / 16384"
proof -
  have "ulp32 t \<le> ulp32 1024"
    using assms by (intro ulp32_mono_abs) simp
  also have "ulp32 1024 = 1 / 8192"
    by (simp add: ulp32_def ulp_down_numeral)
  finally show ?thesis
    using fl32_error_ulp [of t] by simp
qed


subsection \<open>Interpolating between equal samples\<close>

lemma blend_step:
  assumes s: "\<bar>s\<bar> \<le> 256" and d: "\<bar>d\<bar> \<le> 1"
  shows "\<bar>fadd (fmul s (fsub 1 d)) (fmul s d) - s\<bar> \<le> 259 / 16384"
proof -
  define a where "a = fsub 1 d"
  define p1 where "p1 = fmul s a"
  define p2 where "p2 = fmul s d"
  have "\<bar>1 - d\<bar> \<le> 1024" using d by linarith
  from fl32_abs_error [OF this] have ea: "\<bar>a - (1 - d)\<bar> \<le> 1 / 16384"
    by (simp add: a_def fsub_def)
  then have a2: "\<bar>a\<bar> \<le> 2 + 1 / 16384" using d by linarith
  have sa: "\<bar>s * a\<bar> \<le> 256 * (2 + 1 / 16384)"
    unfolding abs_mult using s a2 by (intro mult_mono) auto
  then have "\<bar>s * a\<bar> \<le> 1024" by simp
  from fl32_abs_error [OF this] have e1: "\<bar>p1 - s * a\<bar> \<le> 1 / 16384"
    by (simp add: p1_def fmul_def)
  have sd: "\<bar>s * d\<bar> \<le> 256 * 1"
    unfolding abs_mult using s d by (intro mult_mono) auto
  then have "\<bar>s * d\<bar> \<le> 1024" by simp
  from fl32_abs_error [OF this] have e2: "\<bar>p2 - s * d\<bar> \<le> 1 / 16384"
    by (simp add: p2_def fmul_def)
  have "\<bar>p1 + p2\<bar> \<le> 1024" using e1 e2 sa sd unfolding abs_le_iff by auto
  from fl32_abs_error [OF this] have e3: "\<bar>fadd p1 p2 - (p1 + p2)\<bar> \<le> 1 / 16384"
    by (simp add: fadd_def)
  have "\<bar>s * (a - (1 - d))\<bar> \<le> 256 * (1 / 16384)"
    unfolding abs_mult using s ea by (intro mult_mono) auto
  moreover have "s * (a - (1 - d)) = s * a + s * d - s"
    by (simp add: algebra_simps)
  ultimately have e4: "\<bar>s * a + s * d - s\<bar> \<le> 256 / 16384" by simp
  have "\<bar>fadd p1 p2 - s\<bar> \<le> 259 / 16384"
    using e1 e2 e3 e4 unfolding abs_le_iff by auto
  then show ?thesis
    by (simp add: p1_def p2_def a_def)
qed

lemma blend_uniform:
  assumes v: "0 \<le> v" "v \<le> 255" and dx: "\<bar>dx\<bar> \<le> 1" and dy: "\<bar>dy\<bar> \<le> 1"
  shows "f_to_uchar (fadd (fadd
            (fmul (fadd (fmul (f_of_int v) (fsub 1 dx)) (fmul (f_of_int v) dx)) (fsub 1 dy))
            (fmul (fadd (fmul (f_of_int v) (fsub 1 dx)) (fmul (f_of_int v) dx)) dy)) (1 / 2))
         = Some (word_of_int v)"
proof -
  define S where "S = fadd (fmul (f_of_int v) (fsub 1 dx)) (fmul (f_of_int v) dx)"
  define F where "F = fadd (fmul S (fsub 1 dy)) (fmul S dy)"
  have V: "f_of_int v = of_int v"
    unfolding f_of_int_def using v by (intro fl32_of_int) simp
  have "\<bar>of_int v :: real\<bar> \<le> 256" using v by simp
  from blend_step [OF this dx] have e1: "\<bar>S - of_int v\<bar> \<le> 259 / 16384"
    by (simp add: S_def V)
  moreover have "(0::real) \<le> of_int v" "(of_int v :: real) \<le> 255" using v by simp_all
  ultimately have "\<bar>S\<bar> \<le> 256" unfolding abs_le_iff by auto
  from blend_step [OF this dy] have e2: "\<bar>F - S\<bar> \<le> 259 / 16384"
    by (simp add: F_def)
  have lo: "of_int (4 * v + 1) / 2 ^ 2 \<le> F + 1 / 2" and hi: "F + 1 / 2 \<le> of_int (4 * v + 3) / 2 ^ 2"
    using e1 e2 unfolding abs_le_iff by (simp_all add: field_simps)
  have "fl32 (of_int (4 * v + 1) / 2 ^ 2) = of_int (4 * v + 1) / 2 ^ 2"
    "fl32 (of_int (4 * v + 3) / 2 ^ 2) = of_int (4 * v + 3) / 2 ^ 2"
    using v by (intro fl32_dyadic; simp)+
  then have "of_int (4 * v + 1) / 2 ^ 2 \<le> fadd F (1 / 2)" "fadd F (1 / 2) \<le> of_int (4 * v + 3) / 2 ^ 2"
    using fl32_mono [OF lo] fl32_mono [OF hi] by (simp_all add: fadd_def)
  then have b: "of_int v \<le> fadd F (1 / 2)" "fadd F (1 / 2) < of_int v + 1"
    by simp_all
  then have "0 \<le> fadd F (1 / 2)" using v by linarith
  then have "trunc (fadd F (1 / 2)) = \<lfloor>fadd F (1 / 2)\<rfloor>" by (simp add: trunc_def)
  also have "\<dots> = v" using b by (intro floor_unique) auto
  finally have "f_to_uchar (fadd F (1 / 2)) = Some (word_of_int v)"
    using v by (simp add: f_to_uchar_def)
  then show ?thesis by (simp add: F_def S_def)
qed

subsection \<open>Resampling a uniform image\<close>

lemma for_upto_cong:
  assumes "\<And>i s. 0 \<le> i \<Longrightarrow> i < n \<Longrightarrow> f i s = g i s"
  shows "for_upto n f s = for_upto n g s"
proof -
  have "iterate xs f s = iterate xs g s" if "\<forall>i\<in>set xs. 0 \<le> i \<and> i < n" for xs s
    using that
  proof (induction xs arbitrary: s)
    case Nil
    then show ?case by simp
  next
    case (Cons a xs)
    then have "f a s = g a s" using assms by simp
    then show ?case using Cons by (simp split: option.splits)
  qed
  moreover have "\<forall>i\<in>set (map int [0..<nat n]). 0 \<le> i \<and> i < n"
    by auto
  ultimately show ?thesis
    unfolding for_upto_def by blast
qed

lemma uniform_image_length [simp]: "length (uniform_image px n) = n * length px"
  by (induction n) (simp_all add: uniform_image_def)

lemma uniform_image_nth:
  assumes "k < n * length px"
  shows "uniform_image px n ! k = px ! (k mod length px)"
  using assms
proof (induction n arbitrary: k)
  case 0
  then show ?case by simp
next
  case (Suc n)
  have u: "uniform_image px (Suc n) = px @ uniform_image px n"
    by (simp add: uniform_image_def)
  show ?case
  proof (cases "k < length px")
    case True
    then show ?thesis by (simp add: u nth_append)
  next
    case False
    then have "k - length px < n * length px" using Suc.prems by simp
    from Suc.IH [OF this] have "uniform_image px n ! (k - length px) = px ! ((k - length px) mod length px)" .
    moreover have "(k - length px) mod length px = k mod length px"
      using False by (simp add: le_mod_geq)
    ultimately show ?thesis using False by (simp add: u nth_append)
  qed
qed

lemma clamp_coord_range:
  assumes "0 < n" "n \<le> INT_MAX"
  shows "\<exists>v'. clamp_coord v n = Some v' \<and> 0 \<le> v' \<and> v' < n"
  using assms by (auto simp: clamp_coord_def sub_int_def ck_int_def in_int_range_def INT_MAX_def INT_MIN_def)

lemma fl32_ge:
  assumes "of_int lo * 2 ^ k \<le> x" "\<bar>lo\<bar> \<le> 16777216"
  shows "of_int lo * 2 ^ k \<le> fl32 x"
  using fl32_mono [OF assms(1)] fl32_scaled [OF assms(2), of k] by simp

lemma fl32_le:
  assumes "x \<le> of_int hi * 2 ^ k" "\<bar>hi\<bar> \<le> 16777216"
  shows "fl32 x \<le> of_int hi * 2 ^ k"
  using fl32_mono [OF assms(1)] fl32_scaled [OF assms(2), of k] by simp

lemma f_of_int_ge:
  assumes "lo * 2 ^ k \<le> n" "\<bar>lo\<bar> \<le> 16777216"
  shows "of_int lo * 2 ^ k \<le> f_of_int n"
proof -
  have "(of_int (lo * 2 ^ k) :: real) \<le> of_int n"
    using assms(1) by (simp only: of_int_le_iff)
  then have "of_int lo * 2 ^ k \<le> (of_int n :: real)" by simp
  from fl32_ge [OF this assms(2)] show ?thesis by (simp add: f_of_int_def)
qed

lemma f_of_int_le:
  assumes "n \<le> hi * 2 ^ k" "\<bar>hi\<bar> \<le> 16777216"
  shows "f_of_int n \<le> of_int hi * 2 ^ k"
proof -
  have "(of_int n :: real) \<le> of_int (hi * 2 ^ k)"
    using assms(1) by (simp only: of_int_le_iff)
  then have "(of_int n :: real) \<le> of_int hi * 2 ^ k" by simp
  from fl32_le [OF this assms(2)] show ?thesis by (simp add: f_of_int_def)
qed

lemma fl32_upper:
  assumes "1 / 2 ^ 126 \<le> x"
  shows "fl32 x \<le> x * (1 + 1 / 16777216)"
proof -
  have x: "0 < x" using assms by (rule less_le_trans [rotated]) simp
  then have "1 / 2 ^ 126 \<le> \<bar>x\<bar>" using assms by simp
  from fl32_rel_error [OF this] have "fl32 x - x \<le> x / 16777216"
    using x unfolding abs_le_iff by simp
  then show ?thesis by (simp add: algebra_simps)
qed

lemma fl32_lower:
  assumes "1 / 2 ^ 126 \<le> x"
  shows "x * (1 - 1 / 16777216) \<le> fl32 x"
proof -
  have x: "0 < x" using assms by (rule less_le_trans [rotated]) simp
  then have "1 / 2 ^ 126 \<le> \<bar>x\<bar>" using assms by simp
  from fl32_rel_error [OF this] have "- (fl32 x - x) \<le> x / 16777216"
    using x unfolding abs_le_iff by simp
  then show ?thesis by (simp add: algebra_simps)
qed

lemma source_coord_bounds:
  assumes sx: "- (2 ^ 29) \<le> sx" "sx \<le> 2 ^ 29" and sw: "0 < sw" "sw \<le> 2 ^ 29"
    and nw: "0 < nw" "nw \<le> INT_MAX" and x: "0 \<le> x" "x < nw"
  shows "- (2 ^ 29) \<le> f_of_int sx + fmul (f_of_int x) (fdiv (f_of_int sw) (f_of_int nw)) \<and>
         f_of_int sx + fmul (f_of_int x) (fdiv (f_of_int sw) (f_of_int nw)) \<le> 3 * 2 ^ 29"
proof -
  define SX where "SX = f_of_int sx"
  define SW where "SW = f_of_int sw"
  define NW where "NW = f_of_int nw"
  define X where "X = f_of_int x"
  define q where "q = SW / NW"
  have SX: "- (2 ^ 29) \<le> SX" "SX \<le> 2 ^ 29"
    using f_of_int_ge [of "- 1" 29 sx] f_of_int_le [of sx 1 29] sx by (simp_all add: SX_def)
  have SW: "1 \<le> SW" "SW \<le> 2 ^ 29"
    using f_of_int_ge [of 1 0 sw] f_of_int_le [of sw 1 29] sw by (simp_all add: SW_def)
  have NW: "1 \<le> NW" "NW \<le> 2 ^ 31"
    using f_of_int_ge [of 1 0 nw] f_of_int_le [of nw 1 31] nw
    by (simp_all add: NW_def INT_MAX_def)
  have X: "0 \<le> X" "X \<le> NW"
    using f_of_int_ge [of 0 0 x] x fl32_mono [of "of_int x" "of_int nw"]
    by (simp_all add: X_def NW_def f_of_int_def)
  have q0: "0 < q" using SW NW by (simp add: q_def)
  have "1 / NW \<le> SW / NW" using SW NW by (intro divide_right_mono) auto
  moreover have "1 / 2 ^ 31 \<le> 1 / NW" using NW by (intro divide_left_mono) auto
  moreover have "(1::real) / 2 ^ 126 \<le> 1 / 2 ^ 31" by simp
  ultimately have "1 / 2 ^ 126 \<le> \<bar>q\<bar>" unfolding q_def by linarith
  then have "1 / 2 ^ 126 \<le> q" using q0 by simp
  from fl32_upper [OF this] have xs: "fdiv SW NW \<le> q * (1 + 1 / 16777216)"
    by (simp add: fdiv_def q_def)
  have xs0: "0 \<le> fdiv SW NW"
    using fl32_mono [of 0 q] q0 by (simp add: fdiv_def q_def)
  have "X * fdiv SW NW \<le> NW * (q * (1 + 1 / 16777216))"
    using X xs xs0 NW by (intro mult_mono) auto
  also have "\<dots> = SW * (1 + 1 / 16777216)" using NW by (simp add: q_def)
  also have "\<dots> \<le> 2 ^ 29 * (1 + 1 / 16777216)" using SW by (intro mult_right_mono) auto
  finally have p1: "X * fdiv SW NW \<le> 1 * 2 ^ 30" by simp
  have p0: "0 * 2 ^ 30 \<le> X * fdiv SW NW" using X xs0 by simp
  have P: "0 \<le> fmul X (fdiv SW NW)" "fmul X (fdiv SW NW) \<le> 2 ^ 30"
    using fl32_ge [of 0 30 "X * fdiv SW NW"] fl32_le [of "X * fdiv SW NW" 1 30] p0 p1
    by (simp_all add: fmul_def)
  show ?thesis
    using SX P by (simp add: SX_def SW_def NW_def X_def)
qed

lemma source_coord_ok:
  assumes sx: "- (2 ^ 29) \<le> sx" "sx \<le> 2 ^ 29" and sw: "0 < sw" "sw \<le> 2 ^ 29"
    and nw: "0 < nw" "nw \<le> INT_MAX" and x: "0 \<le> x" "x < nw"
  defines "ox \<equiv> fadd (f_of_int sx) (fmul (f_of_int x) (fdiv (f_of_int sw) (f_of_int nw)))"
  shows "f_to_int ox = Some (trunc ox) \<and> add_int (trunc ox) 1 = Some (trunc ox + 1) \<and>
         \<bar>fsub ox (f_of_int (trunc ox))\<bar> \<le> 1"
proof -
  define z where "z = f_of_int sx + fmul (f_of_int x) (fdiv (f_of_int sw) (f_of_int nw))"
  have z: "of_int (- 1) * 2 ^ 29 \<le> z" "z \<le> of_int 3 * 2 ^ 29"
    using source_coord_bounds [OF assms(1-8)] by (simp_all add: z_def)
  have ox: "ox = fl32 z" by (simp add: ox_def z_def fadd_def)
  have b: "- (2 ^ 29) \<le> ox" "ox \<le> 3 * 2 ^ 29"
    using fl32_ge [OF z(1)] fl32_le [OF z(2)] by (simp_all add: ox)
  have "\<bar>z\<bar> < 2 ^ 200" using z by (simp add: abs_less_iff)
  from fl32_trunc_exact [OF this] have ex: "f_of_int (trunc ox) = of_int (trunc ox)"
    by (simp add: f_of_int_def ox)
  have "trunc (of_int (- (2 ^ 29))) \<le> trunc ox" "trunc ox \<le> trunc (of_int (3 * 2 ^ 29))"
    using b by (intro trunc_mono; simp)+
  then have t: "- (2 ^ 29) \<le> trunc ox" "trunc ox \<le> 3 * 2 ^ 29"
    unfolding trunc_of_int by simp_all
  then have r: "in_int_range (trunc ox)" "in_int_range (trunc ox + 1)"
    by (simp_all add: in_int_range_def INT_MIN_def INT_MAX_def)
  have d: "- 1 \<le> ox - of_int (trunc ox)" "ox - of_int (trunc ox) \<le> 1"
    using trunc_nonneg [of ox] trunc_nonpos [of ox] by (cases "0 \<le> ox"; simp)+
  have "of_int (- 1) * 2 ^ 0 \<le> ox - of_int (trunc ox)" "ox - of_int (trunc ox) \<le> of_int 1 * 2 ^ 0"
    using d by simp_all
  then have "\<bar>fl32 (ox - of_int (trunc ox))\<bar> \<le> 1"
    using fl32_ge [of "- 1" 0 "ox - of_int (trunc ox)"] fl32_le [of "ox - of_int (trunc ox)" 1 0]
    by (simp add: abs_le_iff)
  then show ?thesis
    using r by (simp add: f_to_int_def add_int_def ck_int_def fsub_def ex)
qed


lemma uniform_load:
  assumes W: "0 < W" "0 < H" and c: "c = int (length px)" and fits: "W * H * c \<le> INT_MAX"
    and r: "0 \<le> row" "row < H" "0 \<le> col" "col < W" "0 \<le> ch" "ch < c"
  shows "\<exists>k. sample_index row W col c ch = Some k \<and>
           load (uniform_image px (nat (W * H))) k = Some (px ! nat ch)"
proof -
  let ?k = "(row * W + col) * c + ch"
  have si: "sample_index row W col c ch = Some ?k"
    by (rule sample_index_Some [OF r fits])
  have b: "0 \<le> ?k" "?k < W * H * c"
    using lin_bounds(4) [OF r] by auto
  have cpos: "0 < c" using r by simp
  have len: "int (length (uniform_image px (nat (W * H)))) = W * H * c"
    using W by (simp add: c)
  have "0 \<le> W * H" using W by simp
  then have "int (nat (W * H) * length px) = W * H * c" by (simp add: c)
  then have "?k < int (nat (W * H) * length px)" using b by simp
  then have "nat ?k < nat (W * H) * length px"
    using b(1) by (simp only: nat_less_iff)
  from uniform_image_nth [OF this]
  have "uniform_image px (nat (W * H)) ! nat ?k = px ! (nat ?k mod length px)" .
  moreover have "nat (?k mod c) = nat ?k mod nat c"
    using b(1) cpos by (intro nat_mod_distrib) auto
  then have "nat ?k mod length px = nat (?k mod c)"
    by (simp only: c nat_int)
  moreover have "?k mod c = ch" using lin_decomp(2) [OF r(3-6)] .
  ultimately have "uniform_image px (nat (W * H)) ! nat ?k = px ! nat ch" by simp
  then have "load (uniform_image px (nat (W * H))) ?k = Some (px ! nat ch)"
    using b len by (simp add: load_def)
  then show ?thesis using si by blast
qed

lemma resize_sample_uniform:
  assumes W: "0 < W" "0 < H" and c: "c = int (length px)" and fits: "W * H * c \<le> INT_MAX"
    and x1: "0 \<le> x1" "x1 < W" and y1: "0 \<le> y1" "y1 < H"
    and x2: "0 \<le> x2" "x2 < W" and y2: "0 \<le> y2" "y2 < H"
    and d: "\<bar>dx\<bar> \<le> 1" "\<bar>dy\<bar> \<le> 1"
    and ch: "0 \<le> ch" "ch < c"
  shows "resize_sample (uniform_image px (nat (W * H))) W c nw x1 y1 x2 y2 dx dy x y ch out
         = do { dst \<leftarrow> sample_index y nw x c ch; store out dst (px ! nat ch) }"
proof -
  let ?img = "uniform_image px (nat (W * H))"
  from uniform_load [OF W c fits y1 x1 ch] obtain k11 where
    k11: "sample_index y1 W x1 c ch = Some k11" "load ?img k11 = Some (px ! nat ch)" by blast
  from uniform_load [OF W c fits y1 x2 ch] obtain k21 where
    k21: "sample_index y1 W x2 c ch = Some k21" "load ?img k21 = Some (px ! nat ch)" by blast
  from uniform_load [OF W c fits y2 x1 ch] obtain k12 where
    k12: "sample_index y2 W x1 c ch = Some k12" "load ?img k12 = Some (px ! nat ch)" by blast
  from uniform_load [OF W c fits y2 x2 ch] obtain k22 where
    k22: "sample_index y2 W x2 c ch = Some k22" "load ?img k22 = Some (px ! nat ch)" by blast
  have v: "0 \<le> uint (px ! nat ch)" "uint (px ! nat ch) \<le> 255"
    using uint_bounded [of "px ! nat ch"] by simp_all
  have "f_to_uchar (fadd (fadd
            (fmul (fadd (fmul (f_of_int (uint (px ! nat ch))) (fsub 1 dx))
                        (fmul (f_of_int (uint (px ! nat ch))) dx)) (fsub 1 dy))
            (fmul (fadd (fmul (f_of_int (uint (px ! nat ch))) (fsub 1 dx))
                        (fmul (f_of_int (uint (px ! nat ch))) dx)) dy)) (1 / 2))
         = Some (px ! nat ch)"
    using blend_uniform [OF v d] by simp
  then show ?thesis
    by (simp add: resize_sample_def k11 k21 k12 k22 Let_def)
qed

lemma resize_pixel_uniform:
  assumes W: "0 < W" "0 < H" and c: "c = int (length px)" "0 < c" and fits: "W * H * c \<le> INT_MAX"
    and sx: "- (2 ^ 29) \<le> sx" "sx \<le> 2 ^ 29" and sw: "0 < sw" "sw \<le> 2 ^ 29"
    and sy: "- (2 ^ 29) \<le> sy" "sy \<le> 2 ^ 29" and sh: "0 < sh" "sh \<le> 2 ^ 29"
    and nw: "0 < nw" "nw \<le> INT_MAX" and nh: "0 < nh" "nh \<le> INT_MAX"
    and x: "0 \<le> x" "x < nw" and y: "0 \<le> y" "y < nh"
  shows "resize_pixel (uniform_image px (nat (W * H))) W H c sx sy
           (fdiv (f_of_int sw) (f_of_int nw)) (fdiv (f_of_int sh) (f_of_int nh)) nw x y out
         = for_upto c (\<lambda>ch out. do { dst \<leftarrow> sample_index y nw x c ch;
                                      store out dst (px ! nat ch) }) out"
proof -
  let ?img = "uniform_image px (nat (W * H))"
  define ox where "ox = fadd (f_of_int sx) (fmul (f_of_int x) (fdiv (f_of_int sw) (f_of_int nw)))"
  define oy where "oy = fadd (f_of_int sy) (fmul (f_of_int y) (fdiv (f_of_int sh) (f_of_int nh)))"
  define dx where "dx = fsub ox (f_of_int (trunc ox))"
  define dy where "dy = fsub oy (f_of_int (trunc oy))"
  have cx: "f_to_int ox = Some (trunc ox)" "add_int (trunc ox) 1 = Some (trunc ox + 1)" "\<bar>dx\<bar> \<le> 1"
    using source_coord_ok [OF sx sw nw x] by (simp_all add: ox_def dx_def)
  have cy: "f_to_int oy = Some (trunc oy)" "add_int (trunc oy) 1 = Some (trunc oy + 1)" "\<bar>dy\<bar> \<le> 1"
    using source_coord_ok [OF sy sh nh y] by (simp_all add: oy_def dy_def)
  have Wm: "W \<le> INT_MAX" "H \<le> INT_MAX"
    using dims_le(1,2) [OF W c(2)] fits by linarith+
  from clamp_coord_range [OF W(1) Wm(1)] obtain x1c where
    x1c: "clamp_coord (trunc ox) W = Some x1c" "0 \<le> x1c" "x1c < W" by blast
  from clamp_coord_range [OF W(1) Wm(1)] obtain x2c where
    x2c: "clamp_coord (trunc ox + 1) W = Some x2c" "0 \<le> x2c" "x2c < W" by blast
  from clamp_coord_range [OF W(2) Wm(2)] obtain y1c where
    y1c: "clamp_coord (trunc oy) H = Some y1c" "0 \<le> y1c" "y1c < H" by blast
  from clamp_coord_range [OF W(2) Wm(2)] obtain y2c where
    y2c: "clamp_coord (trunc oy + 1) H = Some y2c" "0 \<le> y2c" "y2c < H" by blast
  have "resize_pixel ?img W H c sx sy
           (fdiv (f_of_int sw) (f_of_int nw)) (fdiv (f_of_int sh) (f_of_int nh)) nw x y out
        = for_upto c (resize_sample ?img W c nw x1c y1c x2c y2c dx dy x y) out"
    unfolding resize_pixel_def Let_def ox_def [symmetric] oy_def [symmetric]
    by (simp add: cx cy x1c(1) x2c(1) y1c(1) y2c(1) dx_def dy_def)
  also have "\<dots> = for_upto c (\<lambda>ch out. do { dst \<leftarrow> sample_index y nw x c ch;
                                      store out dst (px ! nat ch) }) out"
    by (rule for_upto_cong)
      (rule resize_sample_uniform [OF W c(1) fits x1c(2,3) y1c(2,3) x2c(2,3) y2c(2,3) cx(3) cy(3)])
  finally show ?thesis .
qed

text \<open>
  Where \<^verbatim>\<open>int\<close> indices can address both buffers, resampling keeps a uniform colour: for
  every uniform-colour image (a buffer of \<open>W * H\<close> equal pixels, at most \<^verbatim>\<open>INT_MAX\<close>
  samples), every source rectangle of positive size whose position and extent are at most
  \<open>2\<^sup>2\<^sup>9\<close> in magnitude, and every positive destination size of at most \<^verbatim>\<open>INT_MAX\<close> samples,
  \<^verbatim>\<open>resize_image_bilinear\<close> returns, when its allocation succeeds, the buffer in which
  every pixel is that same colour; in particular a 4 by 4 image of (255, 0, 0) resized to
  2 by 2 is (255, 0, 0) at every pixel.
\<close>

theorem resize_image_bilinear_uniform:
  assumes W: "0 < W" "0 < H" and px: "px \<noteq> []" and fits: "W * H * int (length px) \<le> INT_MAX"
    and sx: "- (2 ^ 29) \<le> sx" "sx \<le> 2 ^ 29" and sw: "0 < sw" "sw \<le> 2 ^ 29"
    and sy: "- (2 ^ 29) \<le> sy" "sy \<le> 2 ^ 29" and sh: "0 < sh" "sh \<le> 2 ^ 29"
    and nw: "0 < nw" and nh: "0 < nh" and dfits: "nw * nh * int (length px) \<le> INT_MAX"
    and smax: "INT_MAX \<le> int smax"
    and heap: "heap (nat (nw * nh) * length px) = Some junk"
  shows "resize_image_bilinear smax heap (Some (uniform_image px (nat (W * H)))) W H
           (int (length px)) sx sy sw sh nw nh
         = Inr (uniform_image px (nat (nw * nh)))"
proof -
  define c where "c = int (length px)"
  have c: "c = int (length px)" "0 < c" using px by (simp_all add: c_def)
  let ?img = "uniform_image px (nat (W * H))"
  let ?N = "nat (nw * nh) * length px"
  have N: "int ?N = nw * nh * c" using nw nh by (simp add: c)
  have nwm: "nw \<le> INT_MAX" "nh \<le> INT_MAX"
    using dims_le(1,2) [OF nw nh c(2)] dfits by (simp_all add: c_def)
  have "nw * nh * c \<le> int UINT64_MAX"
    using dfits by (simp add: c_def INT_MAX_def UINT64_MAX_def)
  from alloc_size [OF nw nh c(2) this]
  have sz: "size_mul UINT64_MAX (size_mul UINT64_MAX (to_size UINT64_MAX nw) (to_size UINT64_MAX nh))
              (to_size UINT64_MAX c) = ?N"
    using N by (metis nat_int)
  have le: "?N \<le> smax" using N dfits smax unfolding c_def by linarith
  let ?out0 = "map junk [0..<?N]"
  let ?body = "\<lambda>y x ch out. do { dst \<leftarrow> sample_index y nw x c ch; store out dst (px ! nat ch) }"
  have loops: "for_upto nh (\<lambda>y. for_upto nw (\<lambda>x. resize_pixel ?img W H c sx sy
           (fdiv (f_of_int sw) (f_of_int nw)) (fdiv (f_of_int sh) (f_of_int nh)) nw x y)) ?out0
        = for_upto nh (\<lambda>y. for_upto nw (\<lambda>x. for_upto c (?body y x))) ?out0"
    by (intro for_upto_cong)
      (rule resize_pixel_uniform [OF W c fits [folded c_def] sx sw sy sh nw nwm(1) nh nwm(2)])
  have body: "?body y x ch out = Some (out[nat ((y * nw + x) * c + ch) := px ! nat (((y * nw + x) * c + ch) mod c)])"
    if "0 \<le> y" "y < nh" "0 \<le> x" "x < nw" "0 \<le> ch" "ch < c" "length out = length ?out0"
    for y x ch out
  proof -
    have "nw * nh * c \<le> INT_MAX" using dfits by (simp add: c_def)
    from sample_index_Some [OF that(1-6) this]
    have dst: "sample_index y nw x c ch = Some ((y * nw + x) * c + ch)" .
    have db: "0 \<le> (y * nw + x) * c + ch" "(y * nw + x) * c + ch < nw * nh * c"
      using lin_bounds(4) [OF that(1-6)] by auto
    have st: "store out ((y * nw + x) * c + ch) v = Some (out[nat ((y * nw + x) * c + ch) := v])" for v
      using db N that(7) by (simp add: store_def)
    have "((y * nw + x) * c + ch) mod c = ch" using lin_decomp(2) [OF that(3-6)] .
    then show ?thesis
      by (simp only: dst st bind.bind_lunit)
  qed
  have "int (length ?out0) = nw * nh * c" using N by simp
  from copy_loops [where body = ?body and ?out0.0 = ?out0
      and T = "\<lambda>k. px ! nat (k mod c)", OF nw nh c(2) this body]
  obtain out where out: "for_upto nh (\<lambda>y. for_upto nw (\<lambda>x. for_upto c (?body y x))) ?out0 = Some out"
    "length out = length ?out0" "\<forall>k. 0 \<le> k \<and> k < nw * nh * c \<longrightarrow> out ! nat k = px ! nat (k mod c)"
    by blast
  have "out = uniform_image px (nat (nw * nh))"
  proof (rule nth_equalityI)
    show "length out = length (uniform_image px (nat (nw * nh)))"
      using out(2) by simp
    fix i assume "i < length out"
    then have i: "i < ?N" using out(2) by simp
    then have "0 \<le> int i" "int i < nw * nh * c" using N by linarith+
    then have "out ! i = px ! nat (int i mod c)"
      using out(3) by (metis nat_int)
    also have "nat (int i mod c) = i mod length px"
      by (simp add: c(1) nat_mod_distrib)
    finally show "out ! i = uniform_image px (nat (nw * nh)) ! i"
      using uniform_image_nth [OF i] by simp
  qed
  then have res: "for_upto nh (\<lambda>y. for_upto nw (\<lambda>x. resize_pixel ?img W H c sx sy
           (fdiv (f_of_int sw) (f_of_int nw)) (fdiv (f_of_int sh) (f_of_int nh)) nw x y)) ?out0
        = Some (uniform_image px (nat (nw * nh)))"
    using loops out(1) by simp
  show ?thesis
    unfolding resize_image_bilinear_def c_def [symmetric]
    using nw nh sw sh le by (simp add: sz Let_def malloc_def heap res)
qed

theorem resize_image_bilinear_uniform_witness:
  "(0::int) < 4 \<and> [255, 0, 0 :: byte] \<noteq> [] \<and> (4::int) * 4 * int (length [255, 0, 0 :: byte]) \<le> INT_MAX \<and>
   - (2 ^ 29) \<le> (0::int) \<and> (0::int) \<le> 2 ^ 29 \<and> (4::int) \<le> 2 ^ 29 \<and> (0::int) < 2 \<and>
   (2::int) * 2 * int (length [255, 0, 0 :: byte]) \<le> INT_MAX \<and> INT_MAX \<le> int 4294967295 \<and>
   resize_image_bilinear 4294967295 (\<lambda>n. Some (\<lambda>i. 0))
     (Some [255, 0, 0, 255, 0, 0, 255, 0, 0, 255, 0, 0, 255, 0, 0, 255, 0, 0, 255, 0, 0, 255, 0, 0,
            255, 0, 0, 255, 0, 0, 255, 0, 0, 255, 0, 0, 255, 0, 0, 255, 0, 0, 255, 0, 0, 255, 0, 0])
     4 4 3 0 0 4 4 2 2
   = Inr [255, 0, 0, 255, 0, 0, 255, 0, 0, 255, 0, 0]"
proof -
  have u: "uniform_image [255, 0, 0 :: byte] 16
             = [255, 0, 0, 255, 0, 0, 255, 0, 0, 255, 0, 0, 255, 0, 0, 255, 0, 0, 255, 0, 0,
                255, 0, 0, 255, 0, 0, 255, 0, 0, 255, 0, 0, 255, 0, 0, 255, 0, 0, 255, 0, 0,
                255, 0, 0, 255, 0, 0]"
    "uniform_image [255, 0, 0 :: byte] 4 = [255, 0, 0, 255, 0, 0, 255, 0, 0, 255, 0, 0]"
    by (simp_all add: uniform_image_def eval_nat_numeral)
  show ?thesis
    using resize_image_bilinear_uniform [of 4 4 "[255, 0, 0]" 0 4 0 4 2 2 4294967295
        "\<lambda>n. Some (\<lambda>i. 0)" "\<lambda>i. 0"]
    by (simp add: INT_MAX_def u)
qed

subsection \<open>Destination sizes beyond \<^verbatim>\<open>int\<close>\<close>

lemma iterate_None:
  assumes "i \<in> set xs" "\<And>s. body i s = None"
  shows "iterate xs body s = None"
  using assms(1)
proof (induction xs arbitrary: s)
  case Nil
  then show ?case by simp
next
  case (Cons a xs)
  then show ?case using assms(2) by (cases "a = i") (auto split: option.splits)
qed

lemma for_upto_None:
  assumes "0 \<le> i" "i < n" "\<And>s. body i s = None"
  shows "for_upto n body s = None"
proof -
  have "i \<in> set (map int [0..<nat n])"
    using assms(1,2) by (auto simp: image_iff intro!: bexI [of _ "nat i"])
  then show ?thesis
    unfolding for_upto_def using assms(3) by (rule iterate_None)
qed

lemma resize_sample_None:
  assumes "sample_index y new_w x orig_channels c = None"
  shows "resize_sample img orig_w orig_channels new_w x1 y1 x2 y2 dx dy x y c resized = None"
  using assms by (auto simp: resize_sample_def Let_def split: Option.bind_splits)

lemma resize_pixel_None:
  assumes "sample_index y new_w x orig_channels 0 = None" "0 < orig_channels"
  shows "resize_pixel img orig_w orig_h orig_channels src_x src_y x_scale y_scale new_w x y resized
           = None"
proof -
  have "for_upto orig_channels
          (resize_sample img orig_w orig_channels new_w x1 y1 x2 y2 dx dy x y) s = None"
    for x1 y1 x2 y2 dx dy s
    using assms(2) by (intro for_upto_None [of 0] resize_sample_None [OF assms(1)]) auto
  then show ?thesis
    by (auto simp: resize_pixel_def Let_def split: Option.bind_splits)
qed

lemma resize_image_bilinear_invalid_input:
  assumes "new_w \<le> 0 \<or> new_h \<le> 0 \<or> src_w \<le> 0 \<or> src_h \<le> 0"
  shows "resize_image_bilinear smax heap (Some img) orig_w orig_h orig_channels
           src_x src_y src_w src_h new_w new_h = Inl InvalidInput"
  using assms by (simp add: resize_image_bilinear_def)

lemma resize_image_bilinear_size_overflow:
  assumes "0 < new_w" "0 < new_h" "0 < src_w" "0 < src_h" "0 < orig_channels"
    and "new_w * new_h * orig_channels \<le> int UINT64_MAX"
    and "int smax < new_w * new_h * orig_channels"
  shows "resize_image_bilinear smax heap (Some img) orig_w orig_h orig_channels
           src_x src_y src_w src_h new_w new_h = Inl SizeOverflow"
proof -
  have "size_mul UINT64_MAX
          (size_mul UINT64_MAX (to_size UINT64_MAX new_w) (to_size UINT64_MAX new_h))
          (to_size UINT64_MAX orig_channels) = nat (new_w * new_h * orig_channels)"
    by (rule alloc_size [OF assms(1,2,5,6)])
  moreover have "smax < nat (new_w * new_h * orig_channels)"
    using assms(7) by linarith
  ultimately show ?thesis
    using assms(1-4) by (simp add: resize_image_bilinear_def Let_def)
qed

text \<open>
  Claim C4 asks that \<^verbatim>\<open>resize_image_bilinear\<close> reports a destination too large for its
  size accounting and otherwise fails only when the allocation fails. The size is
  checked against \<^verbatim>\<open>SIZE_MAX\<close>, but every index into the destination is computed in
  \<^verbatim>\<open>int\<close>. A destination of 65535 by 10924 pixels of 3 channels has 2147713020 samples:
  the check passes (also where \<^verbatim>\<open>size_t\<close> has 32 bits), the allocation may succeed, and
  the index \<^verbatim>\<open>(y * new_w + x) * orig_channels\<close> overflows at row 10923 at the latest.
\<close>

theorem resize_image_bilinear_int_index_overflow:
  "resize_image_bilinear 18446744073709551615 (\<lambda>n. Some (\<lambda>i. 0)) (Some [255, 0, 0]) 1 1 3
     0 0 1 1 65535 10924 = Inl UndefinedBehaviour"
proof -
  have "sample_index 10923 65535 0 3 0 = None"
    by (simp add: sample_index_def c_eval)
  then have "resize_pixel img 1 1 3 0 0 xs ys 65535 0 10923 s = None" for img xs ys s
    by (intro resize_pixel_None) auto
  then have "for_upto 65535 (\<lambda>x. resize_pixel img 1 1 3 0 0 xs ys 65535 x 10923) s = None"
    for img xs ys s
    by (intro for_upto_None [of 0 65535 "\<lambda>x. resize_pixel img 1 1 3 0 0 xs ys 65535 x 10923"]) auto
  then have "for_upto 10924 (\<lambda>y. for_upto 65535 (\<lambda>x. resize_pixel img 1 1 3 0 0 xs ys 65535 x y)) s
               = None" for img xs ys s
    by (intro for_upto_None [of 10923 10924
          "\<lambda>y. for_upto 65535 (\<lambda>x. resize_pixel img 1 1 3 0 0 xs ys 65535 x y)"]) auto
  then show ?thesis
    by (simp add: resize_image_bilinear_def UINT64_MAX_def size_mul_def to_size_def malloc_def
        Let_def)
qed

text \<open>
  Claim C7 asks that resampling a uniform-colour image gives that colour at every pixel,
  for every positive destination size. The destination index is the \<^verbatim>\<open>int\<close> expression of
  the previous theorem: a 4 by 4 image of (255, 0, 0), resized from its full rectangle to
  65535 by 10924 pixels, passes the size check and overflows the index at row 10923 at
  the latest, so no buffer of that colour is returned.
\<close>

theorem resize_image_bilinear_uniform_int_index_overflow:
  "resize_image_bilinear 18446744073709551615 (\<lambda>n. Some (\<lambda>i. 0))
     (Some (uniform_image [255, 0, 0] 16)) 4 4 3 0 0 4 4 65535 10924 = Inl UndefinedBehaviour"
proof -
  have "sample_index 10923 65535 0 3 0 = None"
    by (simp add: sample_index_def c_eval)
  then have "resize_pixel img 4 4 3 0 0 xs ys 65535 0 10923 s = None" for img xs ys s
    by (intro resize_pixel_None) auto
  then have "for_upto 65535 (\<lambda>x. resize_pixel img 4 4 3 0 0 xs ys 65535 x 10923) s = None"
    for img xs ys s
    by (intro for_upto_None [of 0 65535 "\<lambda>x. resize_pixel img 4 4 3 0 0 xs ys 65535 x 10923"]) auto
  then have "for_upto 10924 (\<lambda>y. for_upto 65535 (\<lambda>x. resize_pixel img 4 4 3 0 0 xs ys 65535 x y)) s
               = None" for img xs ys s
    by (intro for_upto_None [of 10923 10924
          "\<lambda>y. for_upto 65535 (\<lambda>x. resize_pixel img 4 4 3 0 0 xs ys 65535 x y)"]) auto
  then show ?thesis
    by (simp add: resize_image_bilinear_def UINT64_MAX_def size_mul_def to_size_def malloc_def
        Let_def)
qed


subsection \<open>Display size within the terminal\<close>

lemma fl32_nonneg: "0 \<le> x \<Longrightarrow> 0 \<le> fl32 x"
  using fl32_mono [of 0 x] by simp

lemma fl32_upper1:
  assumes "1 \<le> fl32 x"
  shows "fl32 x \<le> x * (1 + 1 / 16777216)"
proof (cases "1 / 2 ^ 126 \<le> x")
  case True
  then show ?thesis by (rule fl32_upper)
next
  case False
  then have "x \<le> of_int 1 / 2 ^ 126" by simp
  from fl32_mono [OF this] have "fl32 x \<le> of_int 1 / 2 ^ 126"
    using fl32_dyadic [of 1 126] by simp
  also have "\<dots> < 1" by simp
  finally show ?thesis using assms by simp
qed

lemma f_to_int_Some:
  assumes "0 \<le> y" "y \<le> 1610612736"
  shows "f_to_int y = Some (trunc y)" "0 \<le> trunc y" "of_int (trunc y) \<le> y"
proof -
  from trunc_nonneg [OF assms(1)] show a: "0 \<le> trunc y" "of_int (trunc y) \<le> y" by simp_all
  have "of_int (trunc y) \<le> (of_int 1610612736 :: real)" using a(2) assms(2) by simp
  then have "trunc y \<le> 1610612736" by (simp only: of_int_le_iff)
  then show "f_to_int y = Some (trunc y)"
    using a(1) by (simp add: f_to_int_def ck_int_def in_int_range_def INT_MAX_def INT_MIN_def)
qed

lemma usable_height_bounds:
  assumes "1 \<le> uh" "uh \<le> INT_MAX"
  defines "U \<equiv> fmul (f_of_int uh) TERMINAL_CHAR_HEIGHT_TO_WIDTH_RATIO"
  shows "3 / 2 \<le> U"
    and "U \<le> of_int uh * (3 / 2) * ((1 + 1 / 16777216) * (1 + 1 / 16777216))"
    and "of_int uh * (3 / 2) * ((1 - 1 / 16777216) * (1 - 1 / 16777216)) \<le> U"
    and "1 \<le> f_of_int uh" and "f_of_int uh \<le> of_int uh * (1 + 1 / 16777216)"
proof -
  have r: "(1::real) \<le> of_int uh" using assms(1) by simp
  then have s: "1 / 2 ^ 126 \<le> (of_int uh :: real)" by (rule order_trans [rotated]) simp
  show h1: "1 \<le> f_of_int uh" using f_of_int_ge [of 1 0 uh] assms(1) by simp
  show h2: "f_of_int uh \<le> of_int uh * (1 + 1 / 16777216)"
    unfolding f_of_int_def by (rule fl32_upper [OF s])
  have h3: "of_int uh * (1 - 1 / 16777216) \<le> f_of_int uh"
    unfolding f_of_int_def by (rule fl32_lower [OF s])
  have p: "3 / 2 \<le> f_of_int uh * (3 / 2)" using h1 by simp
  then have q: "1 / 2 ^ 126 \<le> f_of_int uh * (3 / 2)" by (rule order_trans [rotated]) simp
  have "of_int 3 / 2 ^ 1 \<le> f_of_int uh * (3 / 2)" using p by simp
  from fl32_mono [OF this] show "3 / 2 \<le> U"
    using fl32_dyadic [of 3 1] by (simp add: U_def fmul_def TERMINAL_CHAR_HEIGHT_TO_WIDTH_RATIO_def)
  have "U \<le> f_of_int uh * (3 / 2) * (1 + 1 / 16777216)"
    unfolding U_def fmul_def TERMINAL_CHAR_HEIGHT_TO_WIDTH_RATIO_def by (rule fl32_upper [OF q])
  then show "U \<le> of_int uh * (3 / 2) * ((1 + 1 / 16777216) * (1 + 1 / 16777216))"
    using h2 by simp
  have "f_of_int uh * (3 / 2) * (1 - 1 / 16777216) \<le> U"
    unfolding U_def fmul_def TERMINAL_CHAR_HEIGHT_TO_WIDTH_RATIO_def by (rule fl32_lower [OF q])
  then show "of_int uh * (3 / 2) * ((1 - 1 / 16777216) * (1 - 1 / 16777216)) \<le> U"
    using h3 by simp
qed


lemma terminal_aspect_bounds:
  assumes tw: "1 \<le> tw" "tw < 2097152" and uh: "1 \<le> uh" "uh \<le> INT_MAX"
  defines "U \<equiv> fmul (f_of_int uh) TERMINAL_CHAR_HEIGHT_TO_WIDTH_RATIO"
  defines "E \<equiv> fdiv (f_of_int tw) U"
  shows "f_of_int tw = of_int tw" and "0 < E"
    and "E * U \<le> of_int tw * (1 + 1 / 16777216)"
    and "of_int tw * (1 - 1 / 16777216) \<le> E * U"
proof -
  show t: "f_of_int tw = of_int tw"
    unfolding f_of_int_def using tw by (intro fl32_of_int) simp
  note ub = usable_height_bounds [OF uh, folded U_def]
  have U: "0 < U" using ub(1) by simp
  have "(of_int uh :: real) \<le> of_int INT_MAX" using uh(2) by (simp only: of_int_le_iff)
  then have "U \<le> 2 ^ 33" using ub(2) by (simp add: INT_MAX_def)
  moreover have "(1::real) \<le> of_int tw" using tw(1) by simp
  ultimately have "1 * U \<le> of_int tw * 2 ^ 33"
    using U by (intro mult_mono) simp_all
  then have "1 / 2 ^ 33 \<le> of_int tw / U"
    using U by (simp add: field_simps)
  then have q: "1 / 2 ^ 126 \<le> of_int tw / U" by (rule order_trans [rotated]) simp
  have "E \<le> of_int tw / U * (1 + 1 / 16777216)"
    unfolding E_def fdiv_def t by (rule fl32_upper [OF q])
  then have "E * U \<le> of_int tw / U * (1 + 1 / 16777216) * U"
    using U by (intro mult_right_mono) simp_all
  then show "E * U \<le> of_int tw * (1 + 1 / 16777216)" using U by simp
  have l: "of_int tw / U * (1 - 1 / 16777216) \<le> E"
    unfolding E_def fdiv_def t by (rule fl32_lower [OF q])
  then have "of_int tw / U * (1 - 1 / 16777216) * U \<le> E * U"
    using U by (intro mult_right_mono) simp_all
  then show "of_int tw * (1 - 1 / 16777216) \<le> E * U" using U by simp
  have "0 < of_int tw / U * (1 - 1 / 16777216)" using U tw(1) by simp
  then show "0 < E" using l by simp
qed

lemma height_tail:
  assumes "0 \<le> x" "x \<le> 2 ^ 31"
  shows "0 \<le> fdiv (fl32 x) TERMINAL_CHAR_HEIGHT_TO_WIDTH_RATIO"
    and "fdiv (fl32 x) TERMINAL_CHAR_HEIGHT_TO_WIDTH_RATIO \<le> 1610612736"
proof -
  have a: "0 \<le> fl32 x" using assms(1) by (rule fl32_nonneg)
  have b: "fl32 x \<le> 2 ^ 31" using fl32_le [of x 1 31] assms(2) by simp
  show "0 \<le> fdiv (fl32 x) TERMINAL_CHAR_HEIGHT_TO_WIDTH_RATIO"
    unfolding fdiv_def TERMINAL_CHAR_HEIGHT_TO_WIDTH_RATIO_def using a by (intro fl32_nonneg) simp
  have "fl32 x / (3 / 2) \<le> of_int 3 * 2 ^ 29" using b by simp
  from fl32_le [OF this] show "fdiv (fl32 x) TERMINAL_CHAR_HEIGHT_TO_WIDTH_RATIO \<le> 1610612736"
    by (simp add: fdiv_def TERMINAL_CHAR_HEIGHT_TO_WIDTH_RATIO_def)
qed

lemma height_in_range:
  fixes T H z F A E U :: real
  assumes F: "0 \<le> F" "F \<le> T * z * (1 + 1 / 16777216)"
    and A: "E < A" "0 < E"
    and EU: "T * (1 - 1 / 16777216) \<le> E * U"
    and U: "0 < U" "U \<le> H * (3 / 2) * ((1 + 1 / 16777216) * (1 + 1 / 16777216))"
    and T: "1 \<le> T" and H: "1 \<le> H" and z: "0 < z" "H * z \<le> 2 ^ 30"
  shows "0 \<le> F / A" and "F / A \<le> 2 ^ 31"
proof -
  have Apos: "0 < A" using A by simp
  show "0 \<le> F / A" using F(1) Apos by simp
  have "F * U \<le> (T * z * (1 + 1 / 16777216)) * (H * (3 / 2) * ((1 + 1 / 16777216) * (1 + 1 / 16777216)))"
    using F U T z by (intro mult_mono) simp_all
  also have "\<dots> = T * ((H * z) * (3 / 2 * (1 + 1 / 16777216) * (1 + 1 / 16777216) * (1 + 1 / 16777216)))"
    by (simp add: algebra_simps)
  also have "\<dots> \<le> T * (2 ^ 30 * (3 / 2 * (1 + 1 / 16777216) * (1 + 1 / 16777216) * (1 + 1 / 16777216)))"
    using T z(2) by (intro mult_left_mono mult_right_mono) simp_all
  also have "\<dots> \<le> 2 ^ 31 * (T * (1 - 1 / 16777216))"
    using T by simp
  also have "\<dots> \<le> 2 ^ 31 * (E * U)"
    using EU by simp
  also have "\<dots> \<le> 2 ^ 31 * (A * U)"
    using A(1) U(1) by simp
  finally have "F * U \<le> (2 ^ 31 * A) * U" by (simp add: mult.assoc)
  then have "F \<le> 2 ^ 31 * A" using U(1) by (simp only: mult_le_cancel_right_pos)
  then show "F / A \<le> 2 ^ 31" using Apos by (simp add: field_simps)
qed


lemma width_in_range:
  fixes T H z V A E U :: real
  assumes V: "0 \<le> V"
      "V \<le> (H * z) * (3 / 2 * (1 + 1 / 16777216) * (1 + 1 / 16777216) * (1 + 1 / 16777216))"
    and A: "0 < A" "A \<le> E"
    and EU: "E * U \<le> T * (1 + 1 / 16777216)"
    and U: "H * (3 / 2) * ((1 - 1 / 16777216) * (1 - 1 / 16777216)) \<le> U"
    and T: "1 \<le> T" and H: "1 \<le> H" and z: "0 < z" "T * z \<le> 2 ^ 30"
  shows "0 \<le> V * A" and "V * A \<le> 1610612736"
proof -
  show "0 \<le> V * A" using V(1) A(1) by simp
  have "0 < H * (3 / 2) * ((1 - 1 / 16777216) * (1 - 1 / 16777216))" using H by simp
  then have Upos: "0 < U" using U by (rule less_le_trans)
  have "(V * A) * U \<le> (V * E) * U"
    using V(1) A(2) Upos by (intro mult_right_mono mult_left_mono) simp_all
  also have "\<dots> = V * (E * U)" by (simp add: mult.assoc)
  also have "\<dots> \<le> V * (T * (1 + 1 / 16777216))"
    using V(1) EU by (intro mult_left_mono)
  also have "\<dots> \<le> ((H * z) * (3 / 2 * (1 + 1 / 16777216) * (1 + 1 / 16777216) * (1 + 1 / 16777216)))
                   * (T * (1 + 1 / 16777216))"
    using V(2) T by (intro mult_right_mono) simp_all
  also have "\<dots> = (T * z) * (H * (3 / 2 * (1 + 1 / 16777216) * (1 + 1 / 16777216)
                   * (1 + 1 / 16777216) * (1 + 1 / 16777216)))"
    by (simp add: algebra_simps)
  also have "\<dots> \<le> 2 ^ 30 * (H * (3 / 2 * (1 + 1 / 16777216) * (1 + 1 / 16777216)
                   * (1 + 1 / 16777216) * (1 + 1 / 16777216)))"
    using z(2) H by (intro mult_right_mono) simp_all
  also have "\<dots> \<le> 1610612736 * (H * (3 / 2) * ((1 - 1 / 16777216) * (1 - 1 / 16777216)))"
    using H by simp
  also have "\<dots> \<le> 1610612736 * U"
    using U by simp
  finally have "(V * A) * U \<le> 1610612736 * U" .
  then show "V * A \<le> 1610612736" using Upos by (simp only: mult_le_cancel_right_pos)
qed

lemma height_inverse:
  assumes w: "0 \<le> w" "w \<le> tw" and tw: "tw < 2097152" and uh: "1 \<le> uh" "uh \<le> INT_MAX"
    and A: "0 < A"
    and big: "uh + 1 \<le> trunc (fdiv (fdiv (f_of_int w) A) TERMINAL_CHAR_HEIGHT_TO_WIDTH_RATIO)"
  shows "A * fmul (f_of_int uh) TERMINAL_CHAR_HEIGHT_TO_WIDTH_RATIO \<le> of_int tw + 5 / 8"
proof -
  define U where "U = fmul (f_of_int uh) TERMINAL_CHAR_HEIGHT_TO_WIDTH_RATIO"
  define q where "q = fl32 (of_int w / A)"
  define K :: real where "K = (of_int uh + 1) * (3 / 2)"
  note ub = usable_height_bounds [OF uh, folded U_def]
  have fw: "f_of_int w = of_int w"
    unfolding f_of_int_def using w tw by (intro fl32_of_int) simp
  have q0: "0 \<le> q" unfolding q_def using w(1) A by (intro fl32_nonneg) simp
  have hf: "fdiv (fdiv (f_of_int w) A) TERMINAL_CHAR_HEIGHT_TO_WIDTH_RATIO = fl32 (q / (3 / 2))"
    by (simp add: fdiv_def fw q_def TERMINAL_CHAR_HEIGHT_TO_WIDTH_RATIO_def)
  have h0: "0 \<le> fl32 (q / (3 / 2))" using q0 by (intro fl32_nonneg) simp
  have "(of_int (uh + 1) :: real) \<le> of_int (trunc (fl32 (q / (3 / 2))))"
    using big unfolding hf by (simp only: of_int_le_iff)
  also have "\<dots> \<le> fl32 (q / (3 / 2))" using trunc_nonneg [OF h0] by simp
  finally have b: "of_int uh + 1 \<le> fl32 (q / (3 / 2))" by simp
  have u1: "(1::real) \<le> of_int uh" using uh(1) by simp
  then have "1 \<le> fl32 (q / (3 / 2))" using b by simp
  from fl32_upper1 [OF this] have c: "K \<le> q * (1 + 1 / 16777216)"
    using b by (simp add: K_def)
  have "3 \<le> K" using u1 by (simp add: K_def)
  then have "1 \<le> q" using c by simp
  from fl32_upper1 [OF this [unfolded q_def]]
  have "q \<le> of_int w / A * (1 + 1 / 16777216)" by (simp add: q_def)
  then have "K \<le> of_int w / A * ((1 + 1 / 16777216) * (1 + 1 / 16777216))"
    using c by simp
  then have "K * A \<le> of_int w / A * ((1 + 1 / 16777216) * (1 + 1 / 16777216)) * A"
    using A by (intro mult_right_mono) simp_all
  then have d: "A * K \<le> of_int w * ((1 + 1 / 16777216) * (1 + 1 / 16777216))"
    using A by (simp add: mult.commute)
  have wt: "(of_int w :: real) \<le> of_int tw" "(of_int tw :: real) \<le> 2097152"
    using w(2) tw by simp_all
  have "U \<le> K * ((1 + 1 / 16777216) * (1 + 1 / 16777216))"
    using ub(2) by (simp add: K_def)
  then have "A * U \<le> A * (K * ((1 + 1 / 16777216) * (1 + 1 / 16777216)))"
    using A by (intro mult_left_mono) simp_all
  also have "\<dots> = (A * K) * ((1 + 1 / 16777216) * (1 + 1 / 16777216))"
    by (simp add: mult.assoc)
  also have "\<dots> \<le> of_int w * ((1 + 1 / 16777216) * (1 + 1 / 16777216))
                   * ((1 + 1 / 16777216) * (1 + 1 / 16777216))"
    using d by (intro mult_right_mono) simp_all
  also have "\<dots> \<le> of_int tw + 5 / 8"
    using wt by simp
  finally show ?thesis unfolding U_def .
qed

lemma width_from_height:
  assumes tw: "1 \<le> tw" "tw < 2097152" and A: "0 \<le> U * A"
    and le: "A * U \<le> of_int tw + 5 / 8"
  shows "f_to_int (fmul U A) = Some (trunc (fmul U A))"
    and "0 \<le> trunc (fmul U A)" and "trunc (fmul U A) \<le> tw"
proof -
  have n: "0 \<le> fmul U A" unfolding fmul_def using A by (rule fl32_nonneg)
  have "U * A \<le> of_int (8 * tw + 5) / 2 ^ 3" using le by (simp add: mult.commute)
  from fl32_mono [OF this] have m: "fmul U A \<le> of_int tw + 5 / 8"
    using fl32_dyadic [of "8 * tw + 5" 3] tw by (simp add: fmul_def)
  have "(of_int tw :: real) \<le> 2097152" using tw(2) by simp
  then have "fmul U A \<le> 1610612736" using m by simp
  from f_to_int_Some [OF n this]
  show "f_to_int (fmul U A) = Some (trunc (fmul U A))" "0 \<le> trunc (fmul U A)" by simp_all
  have "of_int (trunc (fmul U A)) \<le> fmul U A" using trunc_nonneg [OF n] by simp
  then have "(of_int (trunc (fmul U A)) :: real) < of_int (tw + 1)" using m by simp
  then have "trunc (fmul U A) < tw + 1" by (simp only: of_int_less_iff)
  then show "trunc (fmul U A) \<le> tw" by simp
qed


lemma height_of_width:
  fixes z A :: real
  assumes tw: "1 \<le> tw" "tw < 2097152" and uh: "1 \<le> uh" "uh \<le> INT_MAX"
    and z: "0 < z" "of_int uh * z \<le> 2 ^ 30"
    and A: "fdiv (f_of_int tw) (fmul (f_of_int uh) TERMINAL_CHAR_HEIGHT_TO_WIDTH_RATIO) < A"
    and w: "0 \<le> w" "f_of_int w = of_int w" "of_int w \<le> of_int tw * z * (1 + 1 / 16777216)"
  defines "y \<equiv> fdiv (fdiv (f_of_int w) A) TERMINAL_CHAR_HEIGHT_TO_WIDTH_RATIO"
  shows "f_to_int y = Some (trunc y)" and "0 \<le> trunc y"
proof -
  define U where "U = fmul (f_of_int uh) TERMINAL_CHAR_HEIGHT_TO_WIDTH_RATIO"
  define E where "E = fdiv (f_of_int tw) U"
  note ub = usable_height_bounds [OF uh, folded U_def]
  note tb = terminal_aspect_bounds [OF tw uh, folded U_def, folded E_def]
  have U: "0 < U" using ub(1) by simp
  have T: "(1::real) \<le> of_int tw" and H: "(1::real) \<le> of_int uh" using tw(1) uh(1) by simp_all
  have w0: "(0::real) \<le> of_int w" using w(1) by simp
  have "E < A" using A by (simp add: E_def U_def)
  from height_in_range [OF w0 w(3) this tb(2) tb(4) U ub(2) T H z]
  have r: "0 \<le> of_int w / A" "of_int w / A \<le> 2 ^ 31" .
  have y: "y = fdiv (fl32 (of_int w / A)) TERMINAL_CHAR_HEIGHT_TO_WIDTH_RATIO"
    by (simp add: y_def w(2) fdiv_def)
  from f_to_int_Some [OF height_tail [OF r, folded y]]
  show "f_to_int y = Some (trunc y)" "0 \<le> trunc y" by simp_all
qed

lemma scaled_extent:
  assumes x: "0 \<le> x" "x \<le> 1610612736"
  shows "f_to_int (fl32 x) = Some (trunc (fl32 x))" and "0 \<le> trunc (fl32 x)"
    and "f_of_int (trunc (fl32 x)) = of_int (trunc (fl32 x))"
    and "of_int (trunc (fl32 x)) \<le> fl32 x"
    and "of_int (trunc (fl32 x)) \<le> x * (1 + 1 / 16777216)"
    and "1 \<le> trunc (fl32 x) \<Longrightarrow> fl32 x \<le> x * (1 + 1 / 16777216)"
proof -
  have n: "0 \<le> fl32 x" using x(1) by (rule fl32_nonneg)
  have "x \<le> of_int 3 * 2 ^ 29" using x(2) by simp
  from fl32_le [OF this] have m: "fl32 x \<le> 1610612736" by simp
  from f_to_int_Some [OF n m]
  show "f_to_int (fl32 x) = Some (trunc (fl32 x))" and p: "0 \<le> trunc (fl32 x)"
    and l: "of_int (trunc (fl32 x)) \<le> fl32 x" by simp_all
  have "\<bar>x\<bar> < 2 ^ 200" using x by simp
  from fl32_trunc_exact [OF this]
  show "f_of_int (trunc (fl32 x)) = of_int (trunc (fl32 x))" by (simp add: f_of_int_def)
  show u: "fl32 x \<le> x * (1 + 1 / 16777216)" if "1 \<le> trunc (fl32 x)"
  proof -
    have "(1::real) \<le> of_int (trunc (fl32 x))" using that by simp
    then have "1 \<le> fl32 x" using l by simp
    then show ?thesis by (rule fl32_upper1)
  qed
  show "of_int (trunc (fl32 x)) \<le> x * (1 + 1 / 16777216)"
  proof (cases "1 \<le> trunc (fl32 x)")
    case True
    from u [OF this] l show ?thesis by simp
  next
    case False
    then have "trunc (fl32 x) = 0" using p by simp
    then show ?thesis using x(1) by simp
  qed
qed


lemma scale_by_width:
  fixes z A :: real
  assumes tw: "1 \<le> tw" "tw < 2097152" and uh: "1 \<le> uh" "uh \<le> INT_MAX"
    and z: "0 < z" "of_int tw * z \<le> 2 ^ 30" "of_int uh * z \<le> 2 ^ 30"
    and A: "fdiv (f_of_int tw) (fmul (f_of_int uh) TERMINAL_CHAR_HEIGHT_TO_WIDTH_RATIO) < A"
  defines "w0 \<equiv> trunc (fmul (f_of_int tw) z)"
  defines "Hf \<equiv> \<lambda>w. fdiv (fdiv (f_of_int w) A) TERMINAL_CHAR_HEIGHT_TO_WIDTH_RATIO"
  shows "f_to_int (fmul (f_of_int tw) z) = Some w0" and "0 \<le> w0"
    and "f_to_int (Hf w0) = Some (trunc (Hf w0))" and "0 \<le> trunc (Hf w0)"
    and "tw < w0 \<Longrightarrow> f_to_int (Hf tw) = Some (trunc (Hf tw)) \<and> 0 \<le> trunc (Hf tw)"
proof -
  have ft: "f_of_int tw = of_int tw"
    unfolding f_of_int_def using tw by (intro fl32_of_int) simp
  have x: "0 \<le> of_int tw * z" "of_int tw * z \<le> 1610612736"
    using tw(1) z(1,2) by simp_all
  note se = scaled_extent [OF x]
  have w0: "w0 = trunc (fl32 (of_int tw * z))" by (simp add: w0_def fmul_def ft)
  show "f_to_int (fmul (f_of_int tw) z) = Some w0" "0 \<le> w0"
    using se(1,2) by (simp_all add: w0 fmul_def ft)
  from height_of_width [OF tw uh z(1,3) A se(2,3,5), folded w0]
  show "f_to_int (Hf w0) = Some (trunc (Hf w0))" "0 \<le> trunc (Hf w0)"
    by (simp_all add: Hf_def)
  show "f_to_int (Hf tw) = Some (trunc (Hf tw)) \<and> 0 \<le> trunc (Hf tw)" if "tw < w0"
  proof -
    have "1 \<le> trunc (fl32 (of_int tw * z))" using that tw(1) by (simp add: w0)
    from se(6) [OF this] have "fl32 (of_int tw * z) \<le> of_int tw * z * (1 + 1 / 16777216)" .
    moreover have "(of_int tw :: real) \<le> of_int (trunc (fl32 (of_int tw * z)))"
      using that by (simp add: w0)
    ultimately have "of_int tw \<le> of_int tw * z * (1 + 1 / 16777216)"
      using se(4) by simp
    from height_of_width [OF tw uh z(1,3) A _ ft this] tw(1)
    show ?thesis by (simp add: Hf_def)
  qed
qed

lemma scale_by_height:
  fixes z A :: real
  assumes tw: "1 \<le> tw" "tw < 2097152" and uh: "1 \<le> uh" "uh \<le> INT_MAX"
    and z: "0 < z" "of_int tw * z \<le> 2 ^ 30" "of_int uh * z \<le> 2 ^ 30"
    and A: "0 < A"
      "A \<le> fdiv (f_of_int tw) (fmul (f_of_int uh) TERMINAL_CHAR_HEIGHT_TO_WIDTH_RATIO)"
  defines "h0 \<equiv> trunc (fmul (f_of_int uh) z)"
  defines "y \<equiv> fmul (fmul (f_of_int h0) TERMINAL_CHAR_HEIGHT_TO_WIDTH_RATIO) A"
  defines "Hf \<equiv> \<lambda>w. fdiv (fdiv (f_of_int w) A) TERMINAL_CHAR_HEIGHT_TO_WIDTH_RATIO"
  shows "f_to_int (fmul (f_of_int uh) z) = Some h0" and "0 \<le> h0"
    and "f_to_int y = Some (trunc y)" and "0 \<le> trunc y"
    and "tw < trunc y \<Longrightarrow> f_to_int (Hf tw) = Some (trunc (Hf tw)) \<and> 0 \<le> trunc (Hf tw)"
proof -
  define U where "U = fmul (f_of_int uh) TERMINAL_CHAR_HEIGHT_TO_WIDTH_RATIO"
  define E where "E = fdiv (f_of_int tw) U"
  define V where "V = fl32 (of_int h0 * (3 / 2))"
  note ub = usable_height_bounds [OF uh, folded U_def]
  note tb = terminal_aspect_bounds [OF tw uh, folded U_def, folded E_def]
  have AE: "A \<le> E" using A(2) by (simp add: E_def U_def)
  have T: "(1::real) \<le> of_int tw" and H: "(1::real) \<le> of_int uh" using tw(1) uh(1) by simp_all
  have "f_of_int uh * z \<le> of_int uh * (1 + 1 / 16777216) * z"
    using ub(5) z(1) by (intro mult_right_mono) simp_all
  also have "\<dots> = (of_int uh * z) * (1 + 1 / 16777216)" by simp
  finally have xh: "f_of_int uh * z \<le> (of_int uh * z) * (1 + 1 / 16777216)" .
  have "(of_int uh * z) * (1 + 1 / 16777216) \<le> 2 ^ 30 * (1 + 1 / 16777216)"
    using z(3) by (intro mult_right_mono) simp_all
  with xh have "f_of_int uh * z \<le> 2 ^ 30 * (1 + 1 / 16777216)" by (rule order_trans)
  then have x: "0 \<le> f_of_int uh * z" "f_of_int uh * z \<le> 1610612736"
    using ub(4) z(1) by simp_all
  note se = scaled_extent [OF x]
  have h0: "h0 = trunc (fl32 (f_of_int uh * z))" by (simp add: h0_def fmul_def)
  show "f_to_int (fmul (f_of_int uh) z) = Some h0" "0 \<le> h0"
    using se(1,2) by (simp_all add: h0 fmul_def)
  have hz: "0 \<le> of_int uh * z" using H z(1) by simp
  have hb: "of_int h0 \<le> (of_int uh * z) * ((1 + 1 / 16777216) * (1 + 1 / 16777216))"
    using se(5) xh by (simp add: h0)
  have V0: "0 \<le> V" unfolding V_def using se(2) by (intro fl32_nonneg) (simp add: h0)
  have Vb: "V \<le> (of_int uh * z)
              * (3 / 2 * (1 + 1 / 16777216) * (1 + 1 / 16777216) * (1 + 1 / 16777216))"
  proof (cases "1 \<le> h0")
    case True
    then have "(1::real) \<le> of_int h0" by simp
    then have "3 / 2 \<le> of_int h0 * (3 / 2 :: real)" by simp
    then have "1 / 2 ^ 126 \<le> of_int h0 * (3 / 2 :: real)" by (rule order_trans [rotated]) simp
    from fl32_upper [OF this] show ?thesis using hb by (simp add: V_def)
  next
    case False
    then have "h0 = 0" using se(2) by (simp add: h0)
    then show ?thesis using hz by (simp add: V_def)
  qed
  from width_in_range [OF V0 Vb A(1) AE tb(3) ub(3) T H z(1,2)]
  have r: "0 \<le> V * A" "V * A \<le> 1610612736" .
  note sv = scaled_extent [OF r]
  have y: "y = fl32 (V * A)"
    by (simp add: y_def V_def fmul_def se(3) h0 TERMINAL_CHAR_HEIGHT_TO_WIDTH_RATIO_def)
  show "f_to_int y = Some (trunc y)" "0 \<le> trunc y"
    using sv(1,2) by (simp_all add: y)
  show "f_to_int (Hf tw) = Some (trunc (Hf tw)) \<and> 0 \<le> trunc (Hf tw)" if "tw < trunc y"
  proof -
    have "1 \<le> trunc (fl32 (V * A))" using that tw(1) by (simp add: y)
    from sv(6) [OF this] have "fl32 (V * A) \<le> V * A * (1 + 1 / 16777216)" .
    moreover have "(of_int tw :: real) \<le> of_int (trunc (fl32 (V * A)))"
      using that by (simp add: y)
    ultimately have "of_int tw \<le> (V * (1 + 1 / 16777216)) * A"
      using sv(4) by (simp add: mult.assoc mult.commute)
    also have "\<dots> \<le> 2 ^ 31 * A"
    proof (rule mult_right_mono)
      have "(of_int uh * z)
              * (3 / 2 * (1 + 1 / 16777216) * (1 + 1 / 16777216) * (1 + 1 / 16777216))
            \<le> 2 ^ 30 * (3 / 2 * (1 + 1 / 16777216) * (1 + 1 / 16777216) * (1 + 1 / 16777216))"
        using z(3) by (intro mult_right_mono) simp_all
      with Vb have "V \<le> 2 ^ 30
          * (3 / 2 * (1 + 1 / 16777216) * (1 + 1 / 16777216) * (1 + 1 / 16777216))"
        by (rule order_trans)
      then show "V * (1 + 1 / 16777216) \<le> 2 ^ 31" by simp
      show "0 \<le> A" using A(1) by simp
    qed
    finally have q1: "of_int tw / A \<le> 2 ^ 31" using A(1) by (simp add: field_simps)
    have q0: "0 \<le> of_int tw / A" using T A(1) by simp
    note t = height_tail [OF q0 q1]
    have "Hf tw = fdiv (fl32 (of_int tw / A)) TERMINAL_CHAR_HEIGHT_TO_WIDTH_RATIO"
      by (simp add: Hf_def tb(1) fdiv_def)
    with f_to_int_Some [OF t] show ?thesis by simp
  qed
qed


lemma aspect_pos:
  assumes "1 \<le> iw" "iw \<le> INT_MAX" "1 \<le> ih" "ih \<le> INT_MAX"
  shows "0 < fdiv (f_of_int iw) (f_of_int ih)"
proof -
  have a: "1 \<le> f_of_int iw" using f_of_int_ge [of 1 0 iw] assms(1) by simp
  have b: "1 \<le> f_of_int ih" using f_of_int_ge [of 1 0 ih] assms(3) by simp
  have c: "f_of_int ih \<le> 2 ^ 31"
    using f_of_int_le [of ih 1 31] assms(4) by (simp add: INT_MAX_def)
  have "1 * f_of_int ih \<le> f_of_int iw * 2 ^ 31"
    using a b c by (intro mult_mono) simp_all
  then have "of_int 1 / 2 ^ 31 \<le> f_of_int iw / f_of_int ih"
    using b by (simp add: field_simps)
  from fl32_mono [OF this] have "1 / 2 ^ 31 \<le> fdiv (f_of_int iw) (f_of_int ih)"
    using fl32_dyadic [of 1 31] by (simp add: fdiv_def)
  then show ?thesis by (rule less_le_trans [rotated]) simp
qed

text \<open>
  On smaller terminals the result does stay inside: for every image of positive width
  and height, every terminal of at least 1 and fewer than \<open>2\<^sup>2\<^sup>1\<close> columns and at least 1
  row, and every positive zoom factor for which neither the columns nor the usable rows
  times the zoom factor exceed \<open>2\<^sup>3\<^sup>0\<close>, \<^verbatim>\<open>calculate_display_dimensions\<close> returns a width
  between 1 and the terminal's columns and a height between 1 and the usable rows, which
  are the rows minus 2, or 1 if that is not positive.
\<close>

theorem calculate_display_dimensions_in_terminal:
  fixes z :: real
  assumes tw: "1 \<le> tw" "tw < 2097152" and th: "1 \<le> th" "th \<le> INT_MAX"
    and iw: "1 \<le> iw" "iw \<le> INT_MAX" and ih: "1 \<le> ih" "ih \<le> INT_MAX"
    and z: "0 < z" "of_int tw * z \<le> 2 ^ 30" "of_int (max 1 (th - 2)) * z \<le> 2 ^ 30"
  shows "\<exists>w h. calculate_display_dimensions tw th iw ih z = Some (w, h) \<and>
           1 \<le> w \<and> w \<le> tw \<and> 1 \<le> h \<and> h \<le> max 1 (th - 2)"
proof -
  define uh where "uh = (if th - 2 \<le> 0 then 1 else th - 2)"
  define A where "A = fdiv (f_of_int iw) (f_of_int ih)"
  define U where "U = fmul (f_of_int uh) TERMINAL_CHAR_HEIGHT_TO_WIDTH_RATIO"
  define E where "E = fdiv (f_of_int tw) U"
  define Hf where "Hf w = fdiv (fdiv (f_of_int w) A) TERMINAL_CHAR_HEIGHT_TO_WIDTH_RATIO" for w
  define Wf where "Wf h = fmul (fmul (f_of_int h) TERMINAL_CHAR_HEIGHT_TO_WIDTH_RATIO) A" for h
  define tail where "tail = (\<lambda>(w0, h0).
      do { (w2, h2) \<leftarrow>
             (if (if w0 \<le> 0 then 1 else w0) > tw
              then do { h \<leftarrow> f_to_int (Hf tw); Some (tw, if h \<le> 0 then 1 else h) }
              else Some (if w0 \<le> 0 then 1 else w0, if h0 \<le> 0 then 1 else h0));
           (w3, h3) \<leftarrow>
             (if h2 > uh
              then do { w \<leftarrow> f_to_int (Wf uh); Some (if w \<le> 0 then 1 else w, uh) }
              else Some (w2, h2));
           Some (if w3 \<le> 0 then 1 else w3, if h3 \<le> (0::int) then 1 else h3) })"
  have um: "uh = max 1 (th - 2)" by (simp add: uh_def max_def)
  have uh: "1 \<le> uh" "uh \<le> INT_MAX" using th by (simp_all add: uh_def)
  have A: "0 < A" unfolding A_def using iw ih by (rule aspect_pos)
  have zu: "of_int uh * z \<le> 2 ^ 30" using z(3) by (simp only: um)
  have sub: "sub_int th 2 = Some (th - 2)"
    using th by (simp add: sub_int_def ck_int_def in_int_range_def INT_MAX_def INT_MIN_def)
  have eq: "calculate_display_dimensions tw th iw ih z =
      Option.bind
        (if E < A
         then do { w \<leftarrow> f_to_int (fmul (f_of_int tw) z); h \<leftarrow> f_to_int (Hf w); Some (w, h) }
         else do { h \<leftarrow> f_to_int (fmul (f_of_int uh) z); w \<leftarrow> f_to_int (Wf h); Some (w, h) })
        tail"
    unfolding calculate_display_dimensions_def tail_def Hf_def Wf_def E_def U_def A_def uh_def
    using iw(1) ih(1) by (simp add: sub Let_def)
  have fin: "\<exists>w h. tail (w0, h0) = Some (w, h) \<and> 1 \<le> w \<and> w \<le> tw \<and> 1 \<le> h \<and> h \<le> uh"
    if p: "0 \<le> w0" "0 \<le> h0"
      and q: "tw < w0 \<Longrightarrow> f_to_int (Hf tw) = Some (trunc (Hf tw)) \<and> 0 \<le> trunc (Hf tw)"
      and r: "E < A \<Longrightarrow> h0 = trunc (Hf w0)"
    for w0 h0
  proof -
    define w1 where "w1 = (if w0 \<le> 0 then 1 else w0)"
    define h1 where "h1 = (if h0 \<le> 0 then 1 else h0)"
    have AU: "A * U \<le> of_int tw + 5 / 8" if "uh + 1 \<le> trunc (Hf w)" "0 \<le> w" "w \<le> tw" for w
    proof (cases "E < A")
      case True
      from height_inverse [OF that(2,3) tw(2) uh A that(1) [unfolded Hf_def]]
      show ?thesis by (simp add: U_def)
    next
      case False
      note tb = terminal_aspect_bounds [OF tw uh, folded U_def, folded E_def]
      have "0 \<le> U" using usable_height_bounds(1) [OF uh, folded U_def] by simp
      then have "A * U \<le> E * U" using False by (intro mult_right_mono) simp_all
      moreover have "(of_int tw :: real) \<le> 2097152" using tw(2) by simp
      ultimately show ?thesis using tb(3) by simp
    qed
    obtain w2 h2 where a:
      "(if w1 > tw
        then do { h \<leftarrow> f_to_int (Hf tw); Some (tw, if h \<le> 0 then 1 else h) }
        else Some (w1, h1)) = Some (w2, h2)"
      "1 \<le> w2" "w2 \<le> tw" "1 \<le> h2" "uh < h2 \<Longrightarrow> A * U \<le> of_int tw + 5 / 8"
    proof (cases "w1 > tw")
      case True
      then have "tw < w0" using tw(1) by (simp add: w1_def split: if_splits)
      note q' = q [OF this]
      define h where "h = (if trunc (Hf tw) \<le> 0 then 1 else trunc (Hf tw))"
      have "A * U \<le> of_int tw + 5 / 8" if "uh < h"
      proof -
        have "uh + 1 \<le> trunc (Hf tw)" using that uh(1) by (simp add: h_def split: if_splits)
        then show ?thesis using tw(1) by (intro AU [of tw]) simp_all
      qed
      moreover have "1 \<le> h" using q' by (simp add: h_def)
      ultimately show ?thesis
        using True q' tw(1) by (intro that [of tw h]) (simp_all add: h_def)
    next
      case False
      then have w: "w0 \<le> tw" "w1 \<le> tw" "1 \<le> w1" using p(1) by (simp_all add: w1_def split: if_splits)
      have "A * U \<le> of_int tw + 5 / 8" if "uh < h1"
      proof (cases "E < A")
        case True
        have "uh + 1 \<le> h0" using that uh(1) by (simp add: h1_def split: if_splits)
        then have "uh + 1 \<le> trunc (Hf w0)" using r [OF True] by simp
        then show ?thesis using p(1) w(1) by (rule AU)
      next
        case False
        note tb = terminal_aspect_bounds [OF tw uh, folded U_def, folded E_def]
        have "0 \<le> U" using usable_height_bounds(1) [OF uh, folded U_def] by simp
        then have "A * U \<le> E * U" using False by (intro mult_right_mono) simp_all
        moreover have "(of_int tw :: real) \<le> 2097152" using tw(2) by simp
        ultimately show ?thesis using tb(3) by simp
      qed
      moreover have "1 \<le> h1" using p(2) by (simp add: h1_def)
      ultimately show ?thesis
        using False w by (intro that [of w1 h1]) simp_all
    qed
    obtain w3 h3 where b:
      "(if h2 > uh
        then do { w \<leftarrow> f_to_int (Wf uh); Some (if w \<le> 0 then 1 else w, uh) }
        else Some (w2, h2)) = Some (w3, h3)"
      "1 \<le> w3" "w3 \<le> tw" "1 \<le> h3" "h3 \<le> uh"
    proof (cases "h2 > uh")
      case True
      note le = a(5) [OF True]
      have "0 \<le> U" using usable_height_bounds(1) [OF uh, folded U_def] by simp
      then have "0 \<le> U * A" using A by simp
      note wh = width_from_height [OF tw this le]
      have "Wf uh = fmul U A" by (simp add: Wf_def U_def)
      then show ?thesis
        using True wh uh(1) tw(1)
        by (intro that [of "if trunc (fmul U A) \<le> 0 then 1 else trunc (fmul U A)" uh]) simp_all
    next
      case False
      then show ?thesis using a(2,3,4) by (intro that [of w2 h2]) simp_all
    qed
    have "tail (w0, h0) = Some (if w3 \<le> 0 then 1 else w3, if h3 \<le> 0 then 1 else h3)"
      by (simp only: tail_def prod.case w1_def [symmetric] h1_def [symmetric] a(1) b(1)
          bind.bind_lunit)
    then have "tail (w0, h0) = Some (w3, h3)" using b(2,4) by simp
    then show ?thesis using b by blast
  qed
  show ?thesis
  proof (cases "E < A")
    case True
    note s = scale_by_width [OF tw uh z(1,2) zu True [unfolded E_def U_def], folded Hf_def]
    from fin [OF s(2,4) s(5)]
    show ?thesis using True s(1,3) by (simp add: eq um)
  next
    case False
    then have "A \<le> E" by simp
    note s = scale_by_height [OF tw uh z(1,2) zu A this [unfolded E_def U_def], folded Hf_def Wf_def]
    from fin [OF s(4,2) s(5)]
    show ?thesis using False s(1,3) by (simp add: eq um)
  qed
qed

theorem calculate_display_dimensions_in_terminal_witness:
  "(1::int) \<le> 80 \<and> (80::int) < 2097152 \<and> (1::int) \<le> 24 \<and> 24 \<le> INT_MAX \<and> 100 \<le> INT_MAX \<and>
   (0::real) < 1 \<and> of_int 80 * (1::real) \<le> 2 ^ 30 \<and> of_int (max 1 (24 - 2)) * (1::real) \<le> 2 ^ 30 \<and>
   (\<exists>w h. calculate_display_dimensions 80 24 100 100 1 = Some (w, h) \<and>
      1 \<le> w \<and> w \<le> 80 \<and> 1 \<le> h \<and> h \<le> 22)"
  using calculate_display_dimensions_in_terminal [of 80 24 100 100 1]
  by (simp add: INT_MAX_def)

end
